theory Spec2Isabelle
  imports Complex_Main
begin

section \<open>Identifiers and program tree\<close>

text \<open>
  Stream, function and application ids are strings (\<open>Tree.ts\<close>).  The mark sets of the
  compiler are JavaScript \<open>Set\<close>s of node objects, which compare by reference, so every
  stream-expression node carries the reference of its object as its first field.
  Number literals carry their payload opaquely; the compiler only copies it.
\<close>

type_synonym StreamID = string
type_synonym FunctionID = string
type_synonym ApplicationID = string
type_synonym ObjRef = nat

text \<open>
  Modelled from the spec: the version of \<open>Tree.ts\<close> that the compiler imports is not among
  the sources (the one at hand has \<open>fid\<close>, \<open>spids\<close> and \<open>bodyExprs\<close> where the compiler
  reads \<open>func\<close>, \<open>sparams\<close> and \<open>body.exprs\<close>).  The node variants are those of the data
  model, with the fields that the compiler reads: a function expression is a reference to a
  function id or a function definition, a tree function definition has its function id, its
  stream-parameter ids, its function-parameter ids and its body entries, a yield has its
  output index, an array index and hence a natural number.  Interfaces, settings and native
  implementations are never read and are left out.
\<close>

datatype NameNode = Name string

datatype ApplicationOut = ApplicationOut (sid: StreamID) (name: "NameNode option")

datatype StreamExpressionNode =
    UndefinedLiteral ObjRef StreamID
  | NumberLiteral ObjRef StreamID real
  | TextLiteral ObjRef StreamID string
  | BooleanLiteral ObjRef StreamID bool
  | StreamReference ObjRef StreamID
  | Application ObjRef ApplicationID "ApplicationOut list" FunctionExpressionNode
      "StreamExpressionNode list" "FunctionExpressionNode list"
and FunctionExpressionNode =
    FunctionReference FunctionID
  | NativeFunctionDefinition FunctionID
  | TreeFunctionDefinition TreeFunctionDefinitionNode
and TreeFunctionDefinitionNode =
    TreeFunctionDefinitionNode FunctionID "StreamID list" "FunctionID list" "BodyExpressionNode list"
and BodyExpressionNode =
    StreamExpression StreamExpressionNode
  | FunctionExpression FunctionExpressionNode
  | YieldExpression nat StreamExpressionNode

text \<open>The reference of a stream-expression node object.\<close>

fun oid :: "StreamExpressionNode \<Rightarrow> ObjRef" where
  "oid (UndefinedLiteral r s) = r"
| "oid (NumberLiteral r s v) = r"
| "oid (TextLiteral r s v) = r"
| "oid (BooleanLiteral r s v) = r"
| "oid (StreamReference r t) = r"
| "oid (Application r aid outs func sargs fargs) = r"

section \<open>Compiled definitions\<close>

datatype Val = VUndefined | VNumber real | VText string | VBoolean bool

datatype ConstStreamSpec = ConstStreamSpec (sid: StreamID) (val: Val)

datatype AppSpec = AppSpec (sids: "StreamID list") (appId: ApplicationID) (funcId: FunctionID)
  (sargIds: "StreamID list") (fargIds: "FunctionID list")

text \<open>
  \<open>yieldIds\<close> is a JavaScript array written by index, so it can have holes: an entry is
  \<open>None\<close> where no element was ever stored.
\<close>

datatype LocalFunctionDefinition = LocalFunctionDefinition (fid: FunctionID) (def: CompiledDefinition)
and CompiledDefinition = CompiledDefinition
  (streamParamIds: "StreamID list") (funcParamIds: "FunctionID list")
  (constStreams: "ConstStreamSpec list") (apps: "AppSpec list")
  (localDefs: "LocalFunctionDefinition list") (yieldIds: "StreamID option list")

section \<open>Errors and results\<close>

text \<open>
  The compiler throws either a \<open>CompilationError\<close> or a plain \<open>Error\<close>, each with an
  optional message.  A run is a result: it returns, throws, or runs out of the fuel that
  bounds the depth of the recursion.
\<close>

datatype error = CompilationError string | Error string

datatype 'a result = OutOfFuel | Throw error | Return 'a

fun rbind :: "'a result \<Rightarrow> ('a \<Rightarrow> 'b result) \<Rightarrow> 'b result" where
  "rbind OutOfFuel f = OutOfFuel"
| "rbind (Throw e) f = Throw e"
| "rbind (Return x) f = f x"

section \<open>Scope environment\<close>

text \<open>
  Modelled from the spec: the class \<open>Environment\<close> (\<open>./Environment\<close>) is not among the
  sources.  It is a chained mapping: a lookup checks the local frame first, then the parent
  chain; \<open>has\<close> is the membership test of that lookup, \<open>get\<close> gives \<open>undefined\<close>
  (\<open>None\<close>) for an absent key, and \<open>set\<close> fails if the key is already present in the
  local frame.  A frame is a JavaScript \<open>Map\<close>, kept here in insertion order.
\<close>

datatype ('k, 'v) Environment = Environment "('k, 'v) Environment option" "('k \<times> 'v) list"

fun env_has :: "('k, 'v) Environment \<Rightarrow> 'k \<Rightarrow> bool" where
  "env_has (Environment None m) k = (map_of m k \<noteq> None)"
| "env_has (Environment (Some out) m) k = (map_of m k \<noteq> None \<or> env_has out k)"

fun env_get :: "('k, 'v) Environment \<Rightarrow> 'k \<Rightarrow> 'v option" where
  "env_get (Environment None m) k = map_of m k"
| "env_get (Environment (Some out) m) k =
     (case map_of m k of Some v \<Rightarrow> Some v | None \<Rightarrow> env_get out k)"

fun env_set :: "('k, 'v) Environment \<Rightarrow> 'k \<Rightarrow> 'v \<Rightarrow> ('k, 'v) Environment result" where
  "env_set (Environment out m) k v =
     (if map_of m k \<noteq> None then Throw (Error [])
      else Return (Environment out (m @ [(k, v)])))"

text \<open>
  Modelled from the spec: \<open>forEach\<close> hands every binding that is visible through the
  environment to the callback, the local frame first.
\<close>

fun env_entries :: "('k, 'v) Environment \<Rightarrow> ('k \<times> 'v) list" where
  "env_entries (Environment None m) = m"
| "env_entries (Environment (Some out) m) =
     m @ filter (\<lambda>(k, v). map_of m k = None) (env_entries out)"

fun local_frame :: "('k, 'v) Environment \<Rightarrow> ('k \<times> 'v) list" where
  "local_frame (Environment out m) = m"

section \<open>Tree utilities\<close>

text \<open>\<open>streamExprReturnedId\<close> of \<open>TreeUtil.ts\<close>; \<open>None\<close> is \<open>undefined\<close>.\<close>

fun firstUnnamed :: "ApplicationOut list \<Rightarrow> StreamID option" where
  "firstUnnamed [] = None"
| "firstUnnamed (out # outs) =
     (if ApplicationOut.name out = None then Some (ApplicationOut.sid out) else firstUnnamed outs)"

fun streamExprReturnedId :: "StreamExpressionNode \<Rightarrow> StreamID option" where
  "streamExprReturnedId (UndefinedLiteral r s) = Some s"
| "streamExprReturnedId (NumberLiteral r s v) = Some s"
| "streamExprReturnedId (TextLiteral r s v) = Some s"
| "streamExprReturnedId (BooleanLiteral r s v) = Some s"
| "streamExprReturnedId (StreamReference r t) = Some t"
| "streamExprReturnedId (Application r aid outs func sargs fargs) = firstUnnamed outs"

text \<open>
  The test \<open>!sid\<close> on a \<open>StreamID | undefined\<close>: true for \<open>undefined\<close> and for the
  empty string.
\<close>

fun falsy :: "StreamID option \<Rightarrow> bool" where
  "falsy None = True"
| "falsy (Some s) = (s = [])"

text \<open>
  Modelled from the spec: \<open>functionExprId\<close> is imported from \<open>./TreeUtil\<close> but is not
  in the sources.  A function expression is a reference to a function id or a function
  definition; its id is the target function id.
\<close>

fun functionExprId :: "FunctionExpressionNode \<Rightarrow> FunctionID" where
  "functionExprId (FunctionReference f) = f"
| "functionExprId (NativeFunctionDefinition f) = f"
| "functionExprId (TreeFunctionDefinition (TreeFunctionDefinitionNode f sps fps body)) = f"

fun isFunctionDefinitionNode :: "FunctionExpressionNode \<Rightarrow> bool" where
  "isFunctionDefinitionNode (FunctionReference f) = False"
| "isFunctionDefinitionNode (NativeFunctionDefinition f) = True"
| "isFunctionDefinitionNode (TreeFunctionDefinition d) = True"

section \<open>Local definition collector\<close>

type_synonym CompilationStreamEnvironment = "(StreamID, StreamExpressionNode option) Environment"
type_synonym CompilationFunctionEnvironment = "(FunctionID, FunctionExpressionNode) Environment"

text \<open>
  The variables of \<open>compileTreeDefinition\<close> that the collector fills.  \<open>localFunctionIds\<close>
  is a \<open>Set\<close> that is iterated later, so it is kept in insertion order.
\<close>

record Locals =
  streamEnvironment :: CompilationStreamEnvironment
  functionEnvironment :: CompilationFunctionEnvironment
  localStreamIds :: "StreamID set"
  localFunctionIds :: "FunctionID list"

text \<open>
  The check-then-set sequence that registers one stream id (lines 53-57, 69-73, 82-86); the
  value is \<open>null\<close> (\<open>None\<close>) for a parameter and the defining node otherwise.
\<close>

definition registerStream :: "StreamID \<Rightarrow> StreamExpressionNode option \<Rightarrow> Locals \<Rightarrow> Locals result" where
  "registerStream s v L =
     (if env_has (streamEnvironment L) s then Throw (Error ''must be unique'')
      else rbind (env_set (streamEnvironment L) s v) (\<lambda>env.
        Return (L\<lparr>streamEnvironment := env, localStreamIds := insert s (localStreamIds L)\<rparr>)))"

text \<open>The same for a function definition node (lines 98-102).\<close>

definition registerFunction :: "FunctionExpressionNode \<Rightarrow> Locals \<Rightarrow> Locals result" where
  "registerFunction node L =
     (if env_has (functionEnvironment L) (functionExprId node) then Throw (Error ''must be unique'')
      else rbind (env_set (functionEnvironment L) (functionExprId node) node) (\<lambda>env.
        Return (L\<lparr>functionEnvironment := env,
                  localFunctionIds := (if functionExprId node \<in> set (localFunctionIds L)
                     then localFunctionIds L else localFunctionIds L @ [functionExprId node])\<rparr>)))"

text \<open>The \<open>forEach\<close> loops over the parameters and over the outputs of an application.\<close>

fun registerStreams :: "StreamID list \<Rightarrow> StreamExpressionNode option \<Rightarrow> Locals \<Rightarrow> Locals result" where
  "registerStreams [] v L = Return L"
| "registerStreams (s # ss) v L = rbind (registerStream s v L) (registerStreams ss v)"

text \<open>
  \<open>visitToFindLocals\<close> on a function expression: a definition is registered and not
  entered; a reference is neither a stream expression nor a definition and has no children.
\<close>

fun visitFunctionExpr :: "FunctionExpressionNode \<Rightarrow> Locals \<Rightarrow> Locals result" where
  "visitFunctionExpr node L =
     (if isFunctionDefinitionNode node then registerFunction node L else Return L)"

fun visitFunctionExprs :: "FunctionExpressionNode list \<Rightarrow> Locals \<Rightarrow> Locals result" where
  "visitFunctionExprs [] L = Return L"
| "visitFunctionExprs (f # fs) L = rbind (visitFunctionExpr f L) (visitFunctionExprs fs)"

text \<open>
  Modelled from the spec: \<open>visitChildren\<close> (\<open>./Traversal\<close>) is not among the sources.
  The walk is pre-order over the child nodes of a node: an application has its function
  expression, its stream arguments and its function arguments as children, in this order, a
  yield has its expression, literals and references have none.  Around it,
  \<open>visitToFindLocals\<close> on a stream expression is the code of lines 62-109.
\<close>

fun visitStreamExpr :: "StreamExpressionNode \<Rightarrow> Locals \<Rightarrow> Locals result"
and visitStreamExprs :: "StreamExpressionNode list \<Rightarrow> Locals \<Rightarrow> Locals result" where
  "visitStreamExpr (UndefinedLiteral r s) L = registerStream s (Some (UndefinedLiteral r s)) L"
| "visitStreamExpr (NumberLiteral r s v) L = registerStream s (Some (NumberLiteral r s v)) L"
| "visitStreamExpr (TextLiteral r s v) L = registerStream s (Some (TextLiteral r s v)) L"
| "visitStreamExpr (BooleanLiteral r s v) L = registerStream s (Some (BooleanLiteral r s v)) L"
| "visitStreamExpr (StreamReference r t) L = Return L"
| "visitStreamExpr (Application r aid outs func sargs fargs) L =
     rbind (registerStreams (map ApplicationOut.sid outs)
              (Some (Application r aid outs func sargs fargs)) L) (\<lambda>L1.
     rbind (visitFunctionExpr func L1) (\<lambda>L2.
     rbind (visitStreamExprs sargs L2) (\<lambda>L3.
     visitFunctionExprs fargs L3)))"
| "visitStreamExprs [] L = Return L"
| "visitStreamExprs (n # ns) L = rbind (visitStreamExpr n L) (visitStreamExprs ns)"

fun visitBodyExpr :: "BodyExpressionNode \<Rightarrow> Locals \<Rightarrow> Locals result" where
  "visitBodyExpr (StreamExpression n) L = visitStreamExpr n L"
| "visitBodyExpr (FunctionExpression f) L = visitFunctionExpr f L"
| "visitBodyExpr (YieldExpression idx n) L = visitStreamExpr n L"

fun visitBodyExprs :: "BodyExpressionNode list \<Rightarrow> Locals \<Rightarrow> Locals result" where
  "visitBodyExprs [] L = Return L"
| "visitBodyExprs (b # bs) L = rbind (visitBodyExpr b L) (visitBodyExprs bs)"

text \<open>Lines 44-110: the fresh frames, the parameters, then the walk of the body.\<close>

definition collectLocals :: "TreeFunctionDefinitionNode \<Rightarrow> CompilationStreamEnvironment \<Rightarrow>
    CompilationFunctionEnvironment \<Rightarrow> Locals result" where
  "collectLocals definition outerStreamEnvironment outerFunctionEnvironment =
     (case definition of TreeFunctionDefinitionNode f sparams fparams body \<Rightarrow>
        rbind (registerStreams sparams None
                 \<lparr>streamEnvironment = Environment (Some outerStreamEnvironment) [],
                  functionEnvironment = Environment (Some outerFunctionEnvironment) [],
                  localStreamIds = {}, localFunctionIds = []\<rparr>)
          (visitBodyExprs body))"

section \<open>Topological graph compiler\<close>

text \<open>The arrays and sets that \<open>traverseStreamExpr\<close> and the body pass mutate.\<close>

record TraverseState =
  constStreams :: "ConstStreamSpec list"
  apps :: "AppSpec list"
  yieldIds :: "StreamID option list"
  externalReferencedStreamIds :: "StreamID set"
  temporaryMarked :: "ObjRef set"
  permanentMarked :: "ObjRef set"

definition initialState :: TraverseState where
  "initialState = \<lparr>constStreams = [], apps = [], yieldIds = [],
     externalReferencedStreamIds = {}, temporaryMarked = {}, permanentMarked = {}\<rparr>"

text \<open>The loop over \<open>node.sargs\<close> (lines 187-194), with the traversal as a parameter.\<close>

fun traverseArgs :: "(StreamExpressionNode \<Rightarrow> TraverseState \<Rightarrow> TraverseState result) \<Rightarrow>
    StreamExpressionNode list \<Rightarrow> StreamID list \<Rightarrow> TraverseState \<Rightarrow>
    (StreamID list \<times> TraverseState) result" where
  "traverseArgs trav [] streamArgIds st = Return (streamArgIds, st)"
| "traverseArgs trav (sarg # sargs) streamArgIds st =
     rbind (trav sarg st) (\<lambda>st1.
       if falsy (streamExprReturnedId sarg) then Throw (Error [])
       else traverseArgs trav sargs (streamArgIds @ [the (streamExprReturnedId sarg)]) st1)"

text \<open>The loop over \<open>node.fargs\<close> (lines 196-232).\<close>

fun resolveFargs :: "CompilationFunctionEnvironment \<Rightarrow> FunctionExpressionNode list \<Rightarrow>
    FunctionID list \<Rightarrow> FunctionID list result" where
  "resolveFargs fenv [] funcArgIds = Return funcArgIds"
| "resolveFargs fenv (farg # fargs) funcArgIds =
     (case env_get fenv (functionExprId farg) of
        None \<Rightarrow> Throw (Error [])
      | Some funcDef \<Rightarrow> resolveFargs fenv fargs (funcArgIds @ [functionExprId farg]))"

text \<open>The switch of \<open>traverseStreamExpr\<close> (lines 143-250), below the two mark tests.\<close>

fun traverseCase :: "(StreamExpressionNode \<Rightarrow> TraverseState \<Rightarrow> TraverseState result) \<Rightarrow>
    CompilationStreamEnvironment \<Rightarrow> CompilationFunctionEnvironment \<Rightarrow> StreamID set \<Rightarrow>
    StreamExpressionNode \<Rightarrow> TraverseState \<Rightarrow> TraverseState result" where
  "traverseCase trav senv fenv lsids (UndefinedLiteral r s) st =
     Return (st\<lparr>constStreams := constStreams st @ [ConstStreamSpec s VUndefined]\<rparr>)"
| "traverseCase trav senv fenv lsids (NumberLiteral r s v) st =
     Return (st\<lparr>constStreams := constStreams st @ [ConstStreamSpec s (VNumber v)]\<rparr>)"
| "traverseCase trav senv fenv lsids (TextLiteral r s v) st =
     Return (st\<lparr>constStreams := constStreams st @ [ConstStreamSpec s (VText v)]\<rparr>)"
| "traverseCase trav senv fenv lsids (BooleanLiteral r s v) st =
     Return (st\<lparr>constStreams := constStreams st @ [ConstStreamSpec s (VBoolean v)]\<rparr>)"
| "traverseCase trav senv fenv lsids (StreamReference r t) st =
     (if t \<in> lsids then
        (case env_get senv t of
           Some None \<Rightarrow> Return st
         | None \<Rightarrow> Throw (Error [])
         | Some (Some targetExpressionNode) \<Rightarrow>
             rbind (trav targetExpressionNode (st\<lparr>temporaryMarked := insert r (temporaryMarked st)\<rparr>))
               (\<lambda>st1. Return (st1\<lparr>temporaryMarked := temporaryMarked st1 - {r}\<rparr>)))
      else if \<not> env_has senv t then Throw (CompilationError [])
      else Return (st\<lparr>externalReferencedStreamIds := insert t (externalReferencedStreamIds st)\<rparr>))"
| "traverseCase trav senv fenv lsids (Application r aid outs func sargs fargs) st =
     (case env_get fenv (functionExprId func) of
        None \<Rightarrow> Throw (CompilationError [])
      | Some functionNode \<Rightarrow>
          rbind (traverseArgs trav sargs [] (st\<lparr>temporaryMarked := insert r (temporaryMarked st)\<rparr>))
            (\<lambda>(streamArgIds, st1).
          rbind (resolveFargs fenv fargs []) (\<lambda>funcArgIds.
          Return (st1\<lparr>temporaryMarked := temporaryMarked st1 - {r},
                       apps := apps st1 @ [AppSpec (map ApplicationOut.sid outs) aid
                                 (functionExprId func) streamArgIds funcArgIds]\<rparr>))))"

text \<open>
  \<open>traverseStreamExpr\<close> (lines 134-253).  The recursion follows stream references through
  the environment, so it is not structural; its depth is bounded by the first argument.
\<close>

primrec traverseStreamExpr :: "nat \<Rightarrow> CompilationStreamEnvironment \<Rightarrow>
    CompilationFunctionEnvironment \<Rightarrow> StreamID set \<Rightarrow>
    StreamExpressionNode \<Rightarrow> TraverseState \<Rightarrow> TraverseState result" where
  "traverseStreamExpr 0 senv fenv lsids = (\<lambda>node st. OutOfFuel)"
| "traverseStreamExpr (Suc fuel) senv fenv lsids = (\<lambda>node st.
     if oid node \<in> permanentMarked st then Return st
     else if oid node \<in> temporaryMarked st then Throw (CompilationError ''graph cycle'')
     else rbind (traverseCase (traverseStreamExpr fuel senv fenv lsids) senv fenv lsids node st)
            (\<lambda>st1. Return (st1\<lparr>permanentMarked := insert (oid node) (permanentMarked st1)\<rparr>)))"

text \<open>
  The assignment \<open>yieldIds[idx] = sid\<close>: inside the array it overwrites, beyond its end
  JavaScript extends the array and leaves holes.
\<close>

definition setYield :: "StreamID option list \<Rightarrow> nat \<Rightarrow> StreamID \<Rightarrow> StreamID option list" where
  "setYield ys idx s =
     (if idx < length ys then ys[idx := Some s]
      else ys @ replicate (idx - length ys) None @ [Some s])"

text \<open>The top-level pass over \<open>definition.body.exprs\<close> (lines 255-270).\<close>

fun bodyPass :: "(StreamExpressionNode \<Rightarrow> TraverseState \<Rightarrow> TraverseState result) \<Rightarrow>
    BodyExpressionNode list \<Rightarrow> TraverseState \<Rightarrow> TraverseState result" where
  "bodyPass trav [] st = Return st"
| "bodyPass trav (YieldExpression idx expr # rest) st =
     rbind (trav expr st) (\<lambda>st1.
       if falsy (streamExprReturnedId expr) then Throw (Error [])
       else bodyPass trav rest
              (st1\<lparr>yieldIds := setYield (yieldIds st1) idx (the (streamExprReturnedId expr))\<rparr>))"
| "bodyPass trav (StreamExpression node # rest) st =
     rbind (trav node st) (bodyPass trav rest)"
| "bodyPass trav (FunctionExpression f # rest) st = Throw (Error [])"

text \<open>The loop that compiles the local tree function definitions (lines 119-128).\<close>

fun compileLocalDefs :: "(TreeFunctionDefinitionNode \<Rightarrow> (CompiledDefinition \<times> StreamID set) result) \<Rightarrow>
    CompilationFunctionEnvironment \<Rightarrow> FunctionID list \<Rightarrow> LocalFunctionDefinition list \<Rightarrow>
    LocalFunctionDefinition list result" where
  "compileLocalDefs compile fenv [] defs = Return defs"
| "compileLocalDefs compile fenv (f # fs) defs =
     (case env_get fenv f of
        None \<Rightarrow> Throw (Error [])
      | Some (TreeFunctionDefinition funcDef) \<Rightarrow>
          rbind (compile funcDef) (\<lambda>(innerCompiledDef, inner).
            compileLocalDefs compile fenv fs (defs @ [LocalFunctionDefinition f innerCompiledDef]))
      | Some other \<Rightarrow> compileLocalDefs compile fenv fs defs)"

text \<open>
  \<open>compileTreeDefinition\<close> (lines 43-284).  It calls itself on the local definitions
  found through the function environment; the first argument bounds that depth and the
  depth of the traversal.
\<close>

primrec compileTreeDefinition :: "nat \<Rightarrow> TreeFunctionDefinitionNode \<Rightarrow>
    CompilationStreamEnvironment \<Rightarrow> CompilationFunctionEnvironment \<Rightarrow>
    (CompiledDefinition \<times> StreamID set) result" where
  "compileTreeDefinition 0 = (\<lambda>definition outerStreamEnvironment outerFunctionEnvironment. OutOfFuel)"
| "compileTreeDefinition (Suc fuel) = (\<lambda>definition outerStreamEnvironment outerFunctionEnvironment.
     rbind (collectLocals definition outerStreamEnvironment outerFunctionEnvironment) (\<lambda>L.
     rbind (compileLocalDefs
              (\<lambda>funcDef. compileTreeDefinition fuel funcDef (streamEnvironment L) (functionEnvironment L))
              (functionEnvironment L) (localFunctionIds L) []) (\<lambda>localDefs.
     rbind (bodyPass (traverseStreamExpr fuel (streamEnvironment L) (functionEnvironment L)
                        (localStreamIds L))
              (case definition of TreeFunctionDefinitionNode f sparams fparams body \<Rightarrow> body)
              initialState) (\<lambda>st.
     Return (case definition of TreeFunctionDefinitionNode f sparams fparams body \<Rightarrow>
               (CompiledDefinition sparams fparams (constStreams st) (apps st) localDefs (yieldIds st),
                externalReferencedStreamIds st))))))"

section \<open>Global entry point\<close>

text \<open>The \<open>forEach\<close> loop that copies the global functions into a fresh frame (lines 289-292).\<close>

fun seedGlobals :: "(FunctionID \<times> FunctionExpressionNode) list \<Rightarrow> CompilationFunctionEnvironment \<Rightarrow>
    CompilationFunctionEnvironment result" where
  "seedGlobals [] env = Return env"
| "seedGlobals ((f, defNode) # rest) env = rbind (env_set env f defNode) (seedGlobals rest)"

text \<open>
  The closure check on the pair that the root call has returned (lines 297-301): a
  non-empty set of externally referenced stream ids throws, an empty one lets the compiled
  definition through.
\<close>

definition closureCheck :: "CompiledDefinition \<times> StreamID set \<Rightarrow> CompiledDefinition result" where
  "closureCheck rootResult =
     (case rootResult of (compiledDefinition, ext) \<Rightarrow>
        if ext \<noteq> {} then Throw (Error []) else Return compiledDefinition)"

text \<open>\<open>compileGlobalTreeDefinition\<close> (lines 286-302).\<close>

definition compileGlobalTreeDefinition :: "nat \<Rightarrow> TreeFunctionDefinitionNode \<Rightarrow>
    CompilationFunctionEnvironment \<Rightarrow> CompiledDefinition result" where
  "compileGlobalTreeDefinition fuel definition globalFunctionEnvironment =
     rbind (seedGlobals (env_entries globalFunctionEnvironment) (Environment None [])) (\<lambda>compGlobalFuncEnv.
     rbind (compileTreeDefinition fuel definition (Environment None [])
              (Environment (Some compGlobalFuncEnv) [])) closureCheck)"

section \<open>Example programs\<close>

text \<open>A table of native functions, as the global function environment.\<close>

definition nativeEnv :: CompilationFunctionEnvironment where
  "nativeEnv = Environment None
     [(''add'', NativeFunctionDefinition ''add''), (''cos'', NativeFunctionDefinition ''cos''),
      (''streamMap'', NativeFunctionDefinition ''streamMap'')]"

text \<open>Two applications that consume each other's output: \<open>a = cos(b); b = cos(a)\<close>.\<close>

definition cycleA :: StreamExpressionNode where
  "cycleA = Application 1 ''appA'' [ApplicationOut ''a'' None] (FunctionReference ''cos'')
     [StreamReference 2 ''b''] []"

definition cycleB :: StreamExpressionNode where
  "cycleB = Application 3 ''appB'' [ApplicationOut ''b'' None] (FunctionReference ''cos'')
     [StreamReference 4 ''a''] []"

definition cycleDef :: TreeFunctionDefinitionNode where
  "cycleDef = TreeFunctionDefinitionNode ''main'' [] []
     [StreamExpression cycleA, StreamExpression cycleB]"

text \<open>A body whose only yield has index 1, so that output 0 is never written.\<close>

definition holeDef :: TreeFunctionDefinitionNode where
  "holeDef = TreeFunctionDefinitionNode ''main'' [] []
     [YieldExpression 1 (UndefinedLiteral 1 ''x'')]"

text \<open>
  A function \<open>f\<close> with parameter \<open>p\<close>, passed as a function argument in the main
  definition, whose body defines a literal under the id \<open>x\<close> that the main definition
  also defines.
\<close>

definition shadowInner :: TreeFunctionDefinitionNode where
  "shadowInner = TreeFunctionDefinitionNode ''f'' [''p''] []
     [YieldExpression 0 (NumberLiteral 5 ''x'' 2)]"

definition shadowDef :: TreeFunctionDefinitionNode where
  "shadowDef = TreeFunctionDefinitionNode ''main'' [] []
     [StreamExpression (Application 1 ''app1'' [ApplicationOut ''y'' None] (FunctionReference ''streamMap'')
        [NumberLiteral 2 ''x'' 1] [TreeFunctionDefinition shadowInner])]"

text \<open>The frames of a scope whose enclosing scope binds \<open>x\<close> and whose own frame is empty.\<close>

definition shadowLocals :: Locals where
  "shadowLocals = \<lparr>streamEnvironment = Environment (Some (Environment None [(''x'', None)])) [],
     functionEnvironment = Environment (Some (Environment None [])) [],
     localStreamIds = {}, localFunctionIds = []\<rparr>"

section \<open>Well-formed frames\<close>

text \<open>A frame is a \<open>Map\<close>, so its keys are distinct.\<close>

fun env_wf :: "('k, 'v) Environment \<Rightarrow> bool" where
  "env_wf (Environment None m) = distinct (map fst m)"
| "env_wf (Environment (Some out) m) = (distinct (map fst m) \<and> env_wf out)"

section \<open>The specs a node emits\<close>

text \<open>
  What \<open>traverseStreamExpr\<close> pushes for a node is determined by the node alone: a literal
  gives its constant-stream spec, an application whose arguments all have a returned id gives
  its application spec.
\<close>

fun isLiteral :: "StreamExpressionNode \<Rightarrow> bool" where
  "isLiteral (UndefinedLiteral r s) = True"
| "isLiteral (NumberLiteral r s v) = True"
| "isLiteral (TextLiteral r s v) = True"
| "isLiteral (BooleanLiteral r s v) = True"
| "isLiteral (StreamReference r t) = False"
| "isLiteral (Application r aid outs func sargs fargs) = False"

fun isApplication :: "StreamExpressionNode \<Rightarrow> bool" where
  "isApplication (Application r aid outs func sargs fargs) = True"
| "isApplication (UndefinedLiteral r s) = False"
| "isApplication (NumberLiteral r s v) = False"
| "isApplication (TextLiteral r s v) = False"
| "isApplication (BooleanLiteral r s v) = False"
| "isApplication (StreamReference r t) = False"

fun constSpecOf :: "StreamExpressionNode \<Rightarrow> ConstStreamSpec" where
  "constSpecOf (UndefinedLiteral r s) = ConstStreamSpec s VUndefined"
| "constSpecOf (NumberLiteral r s v) = ConstStreamSpec s (VNumber v)"
| "constSpecOf (TextLiteral r s v) = ConstStreamSpec s (VText v)"
| "constSpecOf (BooleanLiteral r s v) = ConstStreamSpec s (VBoolean v)"
| "constSpecOf (StreamReference r t) = ConstStreamSpec t VUndefined"
| "constSpecOf (Application r aid outs func sargs fargs) = ConstStreamSpec aid VUndefined"

fun appSpecOf :: "StreamExpressionNode \<Rightarrow> AppSpec" where
  "appSpecOf (Application r aid outs func sargs fargs) =
     AppSpec (map ApplicationOut.sid outs) aid (functionExprId func)
       (map (\<lambda>sarg. the (streamExprReturnedId sarg)) sargs) (map functionExprId fargs)"
| "appSpecOf (UndefinedLiteral r s) = AppSpec [] [] [] [] []"
| "appSpecOf (NumberLiteral r s v) = AppSpec [] [] [] [] []"
| "appSpecOf (TextLiteral r s v) = AppSpec [] [] [] [] []"
| "appSpecOf (BooleanLiteral r s v) = AppSpec [] [] [] [] []"
| "appSpecOf (StreamReference r t) = AppSpec [] [] [] [] []"

section \<open>Successful traversals as a relation\<close>

text \<open>
  \<open>resolves senv fenv lsids node st st'\<close>: a call of \<open>traverseStreamExpr\<close> on \<open>node\<close> in
  state \<open>st\<close> returns in state \<open>st'\<close>; \<open>resolvesAll\<close> is the loop over stream arguments.
\<close>

inductive resolves :: "CompilationStreamEnvironment \<Rightarrow> CompilationFunctionEnvironment \<Rightarrow>
    StreamID set \<Rightarrow> StreamExpressionNode \<Rightarrow> TraverseState \<Rightarrow> TraverseState \<Rightarrow> bool"
  and resolvesAll :: "CompilationStreamEnvironment \<Rightarrow> CompilationFunctionEnvironment \<Rightarrow>
    StreamID set \<Rightarrow> StreamExpressionNode list \<Rightarrow> TraverseState \<Rightarrow> TraverseState \<Rightarrow> bool"
  for senv fenv lsids
where
  Marked: "oid node \<in> permanentMarked st \<Longrightarrow> resolves senv fenv lsids node st st"
| Literal: "\<lbrakk>oid node \<notin> permanentMarked st; oid node \<notin> temporaryMarked st; isLiteral node\<rbrakk>
     \<Longrightarrow> resolves senv fenv lsids node st
           (st\<lparr>constStreams := constStreams st @ [constSpecOf node],
               permanentMarked := insert (oid node) (permanentMarked st)\<rparr>)"
| Param: "\<lbrakk>r \<notin> permanentMarked st; r \<notin> temporaryMarked st; t \<in> lsids; env_get senv t = Some None\<rbrakk>
     \<Longrightarrow> resolves senv fenv lsids (StreamReference r t) st
           (st\<lparr>permanentMarked := insert r (permanentMarked st)\<rparr>)"
| Local: "\<lbrakk>r \<notin> permanentMarked st; r \<notin> temporaryMarked st; t \<in> lsids;
      env_get senv t = Some (Some target);
      resolves senv fenv lsids target (st\<lparr>temporaryMarked := insert r (temporaryMarked st)\<rparr>) st1\<rbrakk>
     \<Longrightarrow> resolves senv fenv lsids (StreamReference r t) st
           (st1\<lparr>temporaryMarked := temporaryMarked st1 - {r},
                permanentMarked := insert r (permanentMarked st1)\<rparr>)"
| External: "\<lbrakk>r \<notin> permanentMarked st; r \<notin> temporaryMarked st; t \<notin> lsids; env_has senv t\<rbrakk>
     \<Longrightarrow> resolves senv fenv lsids (StreamReference r t) st
           (st\<lparr>externalReferencedStreamIds := insert t (externalReferencedStreamIds st),
               permanentMarked := insert r (permanentMarked st)\<rparr>)"
| Applied: "\<lbrakk>r \<notin> permanentMarked st; r \<notin> temporaryMarked st;
      env_get fenv (functionExprId func) \<noteq> None;
      resolvesAll senv fenv lsids sargs (st\<lparr>temporaryMarked := insert r (temporaryMarked st)\<rparr>) st1;
      \<forall>sarg \<in> set sargs. \<not> falsy (streamExprReturnedId sarg);
      \<forall>farg \<in> set fargs. env_get fenv (functionExprId farg) \<noteq> None\<rbrakk>
     \<Longrightarrow> resolves senv fenv lsids (Application r aid outs func sargs fargs) st
           (st1\<lparr>temporaryMarked := temporaryMarked st1 - {r},
                apps := apps st1 @ [appSpecOf (Application r aid outs func sargs fargs)],
                permanentMarked := insert r (permanentMarked st1)\<rparr>)"
| NoArgs: "resolvesAll senv fenv lsids [] st st"
| MoreArgs: "\<lbrakk>resolves senv fenv lsids sarg st st1; resolvesAll senv fenv lsids sargs st1 st2\<rbrakk>
     \<Longrightarrow> resolvesAll senv fenv lsids (sarg # sargs) st st2"

section \<open>The nodes of one scope\<close>

text \<open>
  The stream-expression nodes that belong to a scope are the body entries, the yielded
  expressions and, below an application, its stream arguments; the bodies of function
  definitions belong to child scopes.
\<close>

fun snodes :: "StreamExpressionNode \<Rightarrow> StreamExpressionNode set"
and snodesAll :: "StreamExpressionNode list \<Rightarrow> StreamExpressionNode set" where
  "snodes (UndefinedLiteral r s) = {UndefinedLiteral r s}"
| "snodes (NumberLiteral r s v) = {NumberLiteral r s v}"
| "snodes (TextLiteral r s v) = {TextLiteral r s v}"
| "snodes (BooleanLiteral r s v) = {BooleanLiteral r s v}"
| "snodes (StreamReference r t) = {StreamReference r t}"
| "snodes (Application r aid outs func sargs fargs) =
     insert (Application r aid outs func sargs fargs) (snodesAll sargs)"
| "snodesAll [] = {}"
| "snodesAll (n # ns) = snodes n \<union> snodesAll ns"

fun bodyNodes :: "BodyExpressionNode list \<Rightarrow> StreamExpressionNode set" where
  "bodyNodes [] = {}"
| "bodyNodes (StreamExpression n # rest) = snodes n \<union> bodyNodes rest"
| "bodyNodes (YieldExpression idx n # rest) = snodes n \<union> bodyNodes rest"
| "bodyNodes (FunctionExpression f # rest) = bodyNodes rest"

fun scopeNodes :: "TreeFunctionDefinitionNode \<Rightarrow> StreamExpressionNode set" where
  "scopeNodes (TreeFunctionDefinitionNode f sparams fparams body) = bodyNodes body"

text \<open>The stream ids a node defines.\<close>

fun definedIds :: "StreamExpressionNode \<Rightarrow> StreamID set" where
  "definedIds (UndefinedLiteral r s) = {s}"
| "definedIds (NumberLiteral r s v) = {s}"
| "definedIds (TextLiteral r s v) = {s}"
| "definedIds (BooleanLiteral r s v) = {s}"
| "definedIds (StreamReference r t) = {}"
| "definedIds (Application r aid outs func sargs fargs) = set (map ApplicationOut.sid outs)"

text \<open>The function definitions met in a scope without entering any of them.\<close>

fun fdefsOf :: "FunctionExpressionNode \<Rightarrow> FunctionExpressionNode set" where
  "fdefsOf f = (if isFunctionDefinitionNode f then {f} else {})"

fun fnodes :: "StreamExpressionNode \<Rightarrow> FunctionExpressionNode set"
and fnodesAll :: "StreamExpressionNode list \<Rightarrow> FunctionExpressionNode set" where
  "fnodes (UndefinedLiteral r s) = {}"
| "fnodes (NumberLiteral r s v) = {}"
| "fnodes (TextLiteral r s v) = {}"
| "fnodes (BooleanLiteral r s v) = {}"
| "fnodes (StreamReference r t) = {}"
| "fnodes (Application r aid outs func sargs fargs) =
     fdefsOf func \<union> fnodesAll sargs \<union> (\<Union>farg \<in> set fargs. fdefsOf farg)"
| "fnodesAll [] = {}"
| "fnodesAll (n # ns) = fnodes n \<union> fnodesAll ns"

fun bodyFunctions :: "BodyExpressionNode list \<Rightarrow> FunctionExpressionNode set" where
  "bodyFunctions [] = {}"
| "bodyFunctions (StreamExpression n # rest) = fnodes n \<union> bodyFunctions rest"
| "bodyFunctions (YieldExpression idx n # rest) = fnodes n \<union> bodyFunctions rest"
| "bodyFunctions (FunctionExpression f # rest) = fdefsOf f \<union> bodyFunctions rest"

text \<open>The local frames of the collector's variables, as maps.\<close>

definition smap :: "Locals \<Rightarrow> StreamID \<Rightarrow> StreamExpressionNode option option" where
  "smap L = map_of (local_frame (streamEnvironment L))"

definition fmap :: "Locals \<Rightarrow> FunctionID \<Rightarrow> FunctionExpressionNode option" where
  "fmap L = map_of (local_frame (functionEnvironment L))"

fun outer_env :: "('k, 'v) Environment \<Rightarrow> ('k, 'v) Environment option" where
  "outer_env (Environment out m) = out"

text \<open>
  What the collector has established once it has visited the stream nodes \<open>V\<close> and the
  function definitions \<open>F\<close>: the local stream frame binds exactly the local stream ids,
  each to the parameter marker or to the visited node that defines it; every id a visited
  node defines is bound to that node; the local function frame binds exactly the local
  function ids, each to a visited definition with that id, and every visited definition is
  bound under its id.
\<close>

definition collected :: "Locals \<Rightarrow> StreamExpressionNode set \<Rightarrow> FunctionExpressionNode set \<Rightarrow> bool" where
  "collected L V F \<longleftrightarrow>
     dom (smap L) = localStreamIds L
   \<and> (\<forall>x T. smap L x = Some (Some T) \<longrightarrow> T \<in> V \<and> x \<in> definedIds T)
   \<and> (\<forall>N \<in> V. \<forall>x \<in> definedIds N. smap L x = Some (Some N))
   \<and> dom (fmap L) = set (localFunctionIds L)
   \<and> (\<forall>f nd. fmap L f = Some nd \<longrightarrow> nd \<in> F \<and> functionExprId nd = f)
   \<and> (\<forall>nd \<in> F. fmap L (functionExprId nd) = Some nd)
   \<and> distinct (localFunctionIds L)"

text \<open>
  A function \<open>f\<close>, passed as a function argument and applied nowhere, whose body consumes
  its parameter \<open>p\<close> and the stream \<open>x\<close> of the enclosing main definition.
\<close>

definition closureInner :: TreeFunctionDefinitionNode where
  "closureInner = TreeFunctionDefinitionNode ''f'' [''p''] []
     [YieldExpression 0 (Application 10 ''app2'' [ApplicationOut ''z'' None] (FunctionReference ''add'')
        [StreamReference 11 ''p'', StreamReference 12 ''x''] [])]"

definition closureDef :: TreeFunctionDefinitionNode where
  "closureDef = TreeFunctionDefinitionNode ''main'' [] []
     [StreamExpression (NumberLiteral 1 ''x'' 3),
      YieldExpression 0 (Application 2 ''app1'' [ApplicationOut ''y'' None] (FunctionReference ''streamMap'')
        [StreamReference 3 ''x''] [TreeFunctionDefinition closureInner])]"

section \<open>Properties of one scope's traversal\<close>

text \<open>
  What the traversal of a scope relies on, for the set \<open>U\<close> of the scope's stream nodes:
  the stream arguments of a node of the scope are in the scope, a local id bound to a node
  is bound to a node of the scope, and every id that a node of the scope defines is local
  and bound to that node.
\<close>

definition scope :: "CompilationStreamEnvironment \<Rightarrow> StreamID set \<Rightarrow> StreamExpressionNode set \<Rightarrow> bool" where
  "scope senv lsids U \<longleftrightarrow>
     (\<forall>r aid outs func sargs fargs. Application r aid outs func sargs fargs \<in> U \<longrightarrow> set sargs \<subseteq> U)
   \<and> (\<forall>t T. t \<in> lsids \<longrightarrow> env_get senv t = Some (Some T) \<longrightarrow> T \<in> U)
   \<and> (\<forall>M \<in> U. \<forall>x \<in> definedIds M. x \<in> lsids \<and> env_get senv x = Some (Some M))"

text \<open>
  The emitted specs come from a list of pairwise different node objects of the scope, all
  permanently marked: the constant-stream specs are those of its literals and the
  application specs those of its applications, in that order.
\<close>

definition emitted :: "StreamExpressionNode set \<Rightarrow> TraverseState \<Rightarrow> StreamExpressionNode list \<Rightarrow> bool" where
  "emitted U st nodes \<longleftrightarrow>
     distinct (map oid nodes) \<and> set nodes \<subseteq> U \<and> oid ` set nodes \<subseteq> permanentMarked st
   \<and> constStreams st = map constSpecOf (filter isLiteral nodes)
   \<and> apps st = map appSpecOf (filter isApplication nodes)"

text \<open>
  An application with two outputs, one yielded and one referenced by a second application,
  both fed by a literal that is referenced twice.
\<close>

definition sharedDef :: TreeFunctionDefinitionNode where
  "sharedDef = TreeFunctionDefinitionNode ''main'' [] []
     [YieldExpression 0 (Application 5 ''app2'' [ApplicationOut ''c'' None] (FunctionReference ''cos'')
        [StreamReference 6 ''r''] []),
      StreamExpression (NumberLiteral 1 ''x'' 3),
      YieldExpression 1 (Application 2 ''app1''
        [ApplicationOut ''r'' (Some (Name ''rest'')), ApplicationOut ''q'' None]
        (FunctionReference ''add'') [StreamReference 3 ''x'', StreamReference 4 ''x''] [])]"

text \<open>The stream ids that are outputs of the applications of a scope.\<close>

definition appOutputs :: "StreamExpressionNode set \<Rightarrow> StreamID set" where
  "appOutputs U = (\<Union>N \<in> {N \<in> U. isApplication N}. definedIds N)"

text \<open>
  An application list is in dependency order for a set of ids when every consumed id of
  that set is an output of a spec at a strictly smaller position.
\<close>

definition topological :: "StreamID set \<Rightarrow> AppSpec list \<Rightarrow> bool" where
  "topological ids xs \<longleftrightarrow>
     (\<forall>i < length xs. \<forall>s \<in> set (sargIds (xs ! i)). s \<in> ids \<longrightarrow> (\<exists>j < i. s \<in> set (sids (xs ! j))))"

text \<open>
  A permanently marked node is settled: the spec of an application is in the list, and the
  defining node of a local reference is permanently marked as well.
\<close>

definition settled :: "CompilationStreamEnvironment \<Rightarrow> StreamID set \<Rightarrow> TraverseState \<Rightarrow>
    StreamExpressionNode \<Rightarrow> bool" where
  "settled senv lsids st N \<longleftrightarrow>
     (isApplication N \<longrightarrow> appSpecOf N \<in> set (apps st))
   \<and> (\<forall>r t T. N = StreamReference r t \<longrightarrow> t \<in> lsids \<longrightarrow> env_get senv t = Some (Some T)
         \<longrightarrow> oid T \<in> permanentMarked st)"

definition ordered :: "CompilationStreamEnvironment \<Rightarrow> StreamID set \<Rightarrow> StreamExpressionNode set \<Rightarrow>
    TraverseState \<Rightarrow> bool" where
  "ordered senv lsids U st \<longleftrightarrow>
     (\<forall>N \<in> U. oid N \<in> permanentMarked st \<longrightarrow> settled senv lsids st N)
   \<and> topological (appOutputs U) (apps st)
   \<and> (\<forall>a \<in> set (apps st). \<exists>N \<in> U. isApplication N \<and> a = appSpecOf N)"

text \<open>
  A definition compiles with bounded recursion depth: from some amount of fuel on, and in
  every pair of outer environments, the compiler returns or throws.
\<close>

definition terminates :: "TreeFunctionDefinitionNode \<Rightarrow> bool" where
  "terminates d \<longleftrightarrow>
     (\<forall>osenv ofenv. \<exists>n. \<forall>fuel \<ge> n. compileTreeDefinition fuel d osenv ofenv \<noteq> OutOfFuel)"

text \<open>The function definitions of a definition's own scope, and its body entries.\<close>

fun scopeFunctions :: "TreeFunctionDefinitionNode \<Rightarrow> FunctionExpressionNode set" where
  "scopeFunctions (TreeFunctionDefinitionNode f sparams fparams body) = bodyFunctions body"

fun bodyExprs :: "TreeFunctionDefinitionNode \<Rightarrow> BodyExpressionNode list" where
  "bodyExprs (TreeFunctionDefinitionNode f sparams fparams body) = body"

section \<open>Invocations during a traversal\<close>

text \<open>
  \<open>invokes senv fenv lsids fuel node st node' st'\<close>: the call of \<open>traverseStreamExpr\<close> on
  \<open>node\<close> in state \<open>st\<close> invokes \<open>traverseStreamExpr\<close> on \<open>node'\<close> in state \<open>st'\<close> -- it is
  that call itself, or it is invoked below the target of a local reference, or below a stream
  argument of an application once the arguments before it have returned.
\<close>

inductive invokes :: "CompilationStreamEnvironment \<Rightarrow> CompilationFunctionEnvironment \<Rightarrow>
    StreamID set \<Rightarrow> nat \<Rightarrow> StreamExpressionNode \<Rightarrow> TraverseState \<Rightarrow>
    StreamExpressionNode \<Rightarrow> TraverseState \<Rightarrow> bool"
  for senv fenv lsids
where
  Here: "invokes senv fenv lsids (Suc fuel) node st node st"
| Target: "\<lbrakk>r \<notin> permanentMarked st; r \<notin> temporaryMarked st; t \<in> lsids;
      env_get senv t = Some (Some target);
      invokes senv fenv lsids fuel target (st\<lparr>temporaryMarked := insert r (temporaryMarked st)\<rparr>)
        node' st'\<rbrakk>
     \<Longrightarrow> invokes senv fenv lsids (Suc fuel) (StreamReference r t) st node' st'"
| Argument: "\<lbrakk>r \<notin> permanentMarked st; r \<notin> temporaryMarked st;
      env_get fenv (functionExprId func) \<noteq> None;
      sargs = before @ sarg # after;
      traverseArgs (traverseStreamExpr fuel senv fenv lsids) before []
        (st\<lparr>temporaryMarked := insert r (temporaryMarked st)\<rparr>) = Return (ids, st1);
      invokes senv fenv lsids fuel sarg st1 node' st'\<rbrakk>
     \<Longrightarrow> invokes senv fenv lsids (Suc fuel) (Application r aid outs func sargs fargs) st node' st'"

text \<open>The stream expression that the body pass traverses for a body entry.\<close>

fun entryExpr :: "BodyExpressionNode \<Rightarrow> StreamExpressionNode option" where
  "entryExpr (StreamExpression node) = Some node"
| "entryExpr (YieldExpression idx expr) = Some expr"
| "entryExpr (FunctionExpression f) = None"

text \<open>What the collector finds in \<open>cycleDef\<close>.\<close>

definition cycleLocals :: Locals where
  "cycleLocals = \<lparr>streamEnvironment =
       Environment (Some (Environment None [])) [(''a'', Some cycleA), (''b'', Some cycleB)],
     functionEnvironment = Environment (Some (Environment (Some nativeEnv) [])) [],
     localStreamIds = {''a'', ''b''}, localFunctionIds = []\<rparr>"

text \<open>The parameter ids of a definition, as the compiled definition lists them.\<close>

fun streamParams :: "TreeFunctionDefinitionNode \<Rightarrow> StreamID list" where
  "streamParams (TreeFunctionDefinitionNode f sparams fparams body) = sparams"

fun functionParams :: "TreeFunctionDefinitionNode \<Rightarrow> FunctionID list" where
  "functionParams (TreeFunctionDefinitionNode f sparams fparams body) = fparams"

text \<open>
  A main definition with a literal \<open>x\<close> and, as body entries of their own, the tree function
  definition \<open>f\<close> and a native function definition; neither function is applied or passed
  anywhere.
\<close>

definition standaloneDef :: TreeFunctionDefinitionNode where
  "standaloneDef = TreeFunctionDefinitionNode ''main'' [] []
     [StreamExpression (NumberLiteral 1 ''x'' 3),
      FunctionExpression (TreeFunctionDefinition closureInner),
      FunctionExpression (NativeFunctionDefinition ''now'')]"

text \<open>What the collector finds in \<open>standaloneDef\<close>.\<close>

definition standaloneLocals :: Locals where
  "standaloneLocals = \<lparr>streamEnvironment =
       Environment (Some (Environment None [])) [(''x'', Some (NumberLiteral 1 ''x'' 3))],
     functionEnvironment = Environment (Some (Environment (Some nativeEnv) []))
       [(''f'', TreeFunctionDefinition closureInner), (''now'', NativeFunctionDefinition ''now'')],
     localStreamIds = {''x''}, localFunctionIds = [''f'', ''now'']\<rparr>"

section \<open>Yield indices\<close>

text \<open>
  C3.  The body pass stores each yield at its index and nothing checks the array
  afterwards: compiling \<open>holeDef\<close> returns a compiled definition whose yield-id list has a
  hole at index 0.
\<close>

theorem compile_leaves_yield_hole:
  "compileGlobalTreeDefinition 3 holeDef nativeEnv =
     Return (CompiledDefinition [] [] [ConstStreamSpec ''x'' VUndefined] [] [] [None, Some ''x''])"
  by code_simp

section \<open>Stream references\<close>

text \<open>
  C4.  For a stream reference that is not yet marked: a local target bound to a node is
  resolved recursively under a temporary mark; a local target bound to the parameter marker
  \<open>null\<close> needs no recursion; a target that is not local but visible in the chain is added
  to the externally referenced ids without recursion; a target visible nowhere throws a
  \<open>CompilationError\<close>.
\<close>

theorem traverse_stream_reference:
  assumes "r \<notin> permanentMarked st" and "r \<notin> temporaryMarked st"
  shows "(t \<in> lsids \<and> env_get senv t = Some (Some target) \<longrightarrow>
            traverseStreamExpr (Suc fuel) senv fenv lsids (StreamReference r t) st =
              rbind (traverseStreamExpr fuel senv fenv lsids target
                       (st\<lparr>temporaryMarked := insert r (temporaryMarked st)\<rparr>))
                (\<lambda>st1. Return (st1\<lparr>temporaryMarked := temporaryMarked st1 - {r},
                                   permanentMarked := insert r (permanentMarked st1)\<rparr>)))
       \<and> (t \<in> lsids \<and> env_get senv t = Some None \<longrightarrow>
            traverseStreamExpr (Suc fuel) senv fenv lsids (StreamReference r t) st =
              Return (st\<lparr>permanentMarked := insert r (permanentMarked st)\<rparr>))
       \<and> (t \<notin> lsids \<and> env_has senv t \<longrightarrow>
            traverseStreamExpr (Suc fuel) senv fenv lsids (StreamReference r t) st =
              Return (st\<lparr>externalReferencedStreamIds := insert t (externalReferencedStreamIds st),
                        permanentMarked := insert r (permanentMarked st)\<rparr>))
       \<and> (t \<notin> lsids \<and> \<not> env_has senv t \<longrightarrow>
            traverseStreamExpr (Suc fuel) senv fenv lsids (StreamReference r t) st =
              Throw (CompilationError []))"
  using assms
  by (cases "traverseStreamExpr fuel senv fenv lsids target
        (st\<lparr>temporaryMarked := insert r (temporaryMarked st)\<rparr>)") simp_all

theorem traverse_stream_reference_witness:
  "traverseStreamExpr (Suc 1) (Environment (Some (Environment None [(''o'', None)]))
        [(''p'', None), (''x'', Some (UndefinedLiteral 7 ''x''))]) nativeEnv {''p'', ''x''}
      (StreamReference 1 ''x'') initialState =
     Return (initialState\<lparr>constStreams := [ConstStreamSpec ''x'' VUndefined],
                          permanentMarked := {1, 7}\<rparr>)
   \<and> traverseStreamExpr (Suc 1) (Environment (Some (Environment None [(''o'', None)]))
        [(''p'', None), (''x'', Some (UndefinedLiteral 7 ''x''))]) nativeEnv {''p'', ''x''}
      (StreamReference 1 ''p'') initialState =
     Return (initialState\<lparr>permanentMarked := {1}\<rparr>)
   \<and> traverseStreamExpr (Suc 1) (Environment (Some (Environment None [(''o'', None)]))
        [(''p'', None), (''x'', Some (UndefinedLiteral 7 ''x''))]) nativeEnv {''p'', ''x''}
      (StreamReference 1 ''o'') initialState =
     Return (initialState\<lparr>externalReferencedStreamIds := {''o''}, permanentMarked := {1}\<rparr>)
   \<and> traverseStreamExpr (Suc 1) (Environment (Some (Environment None [(''o'', None)]))
        [(''p'', None), (''x'', Some (UndefinedLiteral 7 ''x''))]) nativeEnv {''p'', ''x''}
      (StreamReference 1 ''z'') initialState = Throw (CompilationError [])"
  using traverse_stream_reference [of 1 initialState "''x''" "{''p'', ''x''}"
      "Environment (Some (Environment None [(''o'', None)])) [(''p'', None), (''x'', Some (UndefinedLiteral 7 ''x''))]"
      "UndefinedLiteral 7 ''x''" 1 nativeEnv]
    traverse_stream_reference [of 1 initialState "''p''" "{''p'', ''x''}"
      "Environment (Some (Environment None [(''o'', None)])) [(''p'', None), (''x'', Some (UndefinedLiteral 7 ''x''))]"
      "UndefinedLiteral 7 ''x''" 1 nativeEnv]
    traverse_stream_reference [of 1 initialState "''o''" "{''p'', ''x''}"
      "Environment (Some (Environment None [(''o'', None)])) [(''p'', None), (''x'', Some (UndefinedLiteral 7 ''x''))]"
      "UndefinedLiteral 7 ''x''" 1 nativeEnv]
    traverse_stream_reference [of 1 initialState "''z''" "{''p'', ''x''}"
      "Environment (Some (Environment None [(''o'', None)])) [(''p'', None), (''x'', Some (UndefinedLiteral 7 ''x''))]"
      "UndefinedLiteral 7 ''x''" 1 nativeEnv]
  by (simp add: initialState_def insert_commute)

section \<open>Global entry point: the closure check\<close>

lemma seedGlobals_appends:
  "distinct (map fst (m @ xs)) \<Longrightarrow>
     seedGlobals xs (Environment out m) = Return (Environment out (m @ xs))"
proof (induction xs arbitrary: m)
  case Nil
  then show ?case by simp
next
  case (Cons x xs)
  obtain f d where x: "x = (f, d)" by (cases x)
  from Cons.prems x have absent: "map_of m f = None"
    by (auto simp: map_of_eq_None_iff)
  from Cons.prems have "distinct (map fst ((m @ [x]) @ xs))" by simp
  from Cons.IH [OF this] x absent show ?case by simp
qed

lemma map_of_filter_absent:
  "map_of m k = None \<Longrightarrow> map_of (filter (\<lambda>(k, v). map_of m k = None) xs) k = map_of xs k"
  by (induction xs) auto

lemma map_of_env_entries: "map_of (env_entries e) k = env_get e k"
proof (induction e rule: env_entries.induct)
  case (1 m)
  then show ?case by simp
next
  case (2 out m)
  then show ?case
    by (cases "map_of m k") (simp_all add: map_add_def map_of_filter_absent split: option.splits)
qed

lemma env_entries_distinct: "env_wf e \<Longrightarrow> distinct (map fst (env_entries e))"
proof (induction e rule: env_entries.induct)
  case (1 m)
  then show ?case by simp
next
  case (2 out m)
  then have d: "distinct (map fst (env_entries out))" and dm: "distinct (map fst m)" by simp_all
  have "distinct (map fst (filter (\<lambda>(k, v). map_of m k = None) (env_entries out)))"
    using d by (simp add: distinct_map_filter)
  moreover have "fst ` set m \<inter> fst ` set (filter (\<lambda>(k, v). map_of m k = None) (env_entries out)) = {}"
    by (force simp: map_of_eq_None_iff)
  ultimately show ?case using dm by simp
qed

text \<open>
  C5.  \<open>compileGlobalTreeDefinition\<close> seeds a fresh frame with every function definition
  visible in the supplied environment, compiles the main definition against an empty stream
  environment and a frame chained onto the seeded one, and hands the pair returned by that
  root call to the closure check; the check throws for every pair whose set of externally
  referenced stream ids is not empty, whatever the compiled definition, and returns the
  compiled definition of every pair whose set is empty.
\<close>

theorem compileGlobal_closure:
  assumes "env_wf globalFunctionEnvironment"
  shows "(\<exists>g. seedGlobals (env_entries globalFunctionEnvironment) (Environment None []) = Return g
            \<and> (\<forall>f. env_get g f = env_get globalFunctionEnvironment f)
            \<and> compileGlobalTreeDefinition fuel definition globalFunctionEnvironment =
                rbind (compileTreeDefinition fuel definition (Environment None [])
                         (Environment (Some g) [])) closureCheck)
       \<and> (\<forall>compiledDefinition ext. ext \<noteq> {} \<longrightarrow>
             closureCheck (compiledDefinition, ext) = Throw (Error []))
       \<and> (\<forall>compiledDefinition. closureCheck (compiledDefinition, {}) = Return compiledDefinition)"
proof -
  let ?g = "Environment None (env_entries globalFunctionEnvironment)"
  have seed: "seedGlobals (env_entries globalFunctionEnvironment) (Environment None []) = Return ?g"
    using seedGlobals_appends [of "[]" "env_entries globalFunctionEnvironment" None]
      env_entries_distinct [OF assms] by simp
  have get: "\<forall>f. env_get ?g f = env_get globalFunctionEnvironment f"
    by (simp add: map_of_env_entries)
  have run: "compileGlobalTreeDefinition fuel definition globalFunctionEnvironment =
               rbind (compileTreeDefinition fuel definition (Environment None [])
                        (Environment (Some ?g) [])) closureCheck"
    unfolding compileGlobalTreeDefinition_def seed by simp
  from seed get run have
    "\<exists>g. seedGlobals (env_entries globalFunctionEnvironment) (Environment None []) = Return g
            \<and> (\<forall>f. env_get g f = env_get globalFunctionEnvironment f)
            \<and> compileGlobalTreeDefinition fuel definition globalFunctionEnvironment =
                rbind (compileTreeDefinition fuel definition (Environment None [])
                         (Environment (Some g) [])) closureCheck"
    by blast
  then show ?thesis by (simp add: closureCheck_def)
qed

theorem compileGlobal_closure_witness:
  "env_wf nativeEnv
   \<and> compileTreeDefinition 6 sharedDef (Environment None []) (Environment (Some nativeEnv) []) =
       Return (CompiledDefinition [] [] [ConstStreamSpec ''x'' (VNumber 3)]
         [AppSpec [''r'', ''q''] ''app1'' ''add'' [''x'', ''x''] [],
          AppSpec [''c''] ''app2'' ''cos'' [''r''] []] [] [Some ''c'', Some ''q''], {})
   \<and> compileGlobalTreeDefinition 6 sharedDef nativeEnv =
       Return (CompiledDefinition [] [] [ConstStreamSpec ''x'' (VNumber 3)]
         [AppSpec [''r'', ''q''] ''app1'' ''add'' [''x'', ''x''] [],
          AppSpec [''c''] ''app2'' ''cos'' [''r''] []] [] [Some ''c'', Some ''q''])
   \<and> closureCheck (CompiledDefinition [] [] [ConstStreamSpec ''x'' (VNumber 3)]
         [AppSpec [''r'', ''q''] ''app1'' ''add'' [''x'', ''x''] [],
          AppSpec [''c''] ''app2'' ''cos'' [''r''] []] [] [Some ''c'', Some ''q''], {''z''})
       = Throw (Error [])"
proof -
  let ?cd = "CompiledDefinition [] [] [ConstStreamSpec ''x'' (VNumber 3)]
         [AppSpec [''r'', ''q''] ''app1'' ''add'' [''x'', ''x''] [],
          AppSpec [''c''] ''app2'' ''cos'' [''r''] []] [] [Some ''c'', Some ''q'']"
  have wf: "env_wf nativeEnv" by (simp add: nativeEnv_def)
  have seeded: "seedGlobals (env_entries nativeEnv) (Environment None []) = Return nativeEnv"
    by (simp add: nativeEnv_def)
  have root: "compileTreeDefinition 6 sharedDef (Environment None []) (Environment (Some nativeEnv) [])
      = Return (?cd, {})"
    by code_simp
  from compileGlobal_closure [OF wf, of 6 sharedDef] obtain g where
    g: "seedGlobals (env_entries nativeEnv) (Environment None []) = Return g"
    and run: "compileGlobalTreeDefinition 6 sharedDef nativeEnv =
        rbind (compileTreeDefinition 6 sharedDef (Environment None []) (Environment (Some g) []))
          closureCheck"
    and throws: "\<forall>compiledDefinition ext. ext \<noteq> {} \<longrightarrow>
        closureCheck (compiledDefinition, ext) = Throw (Error [])"
    and returns: "\<forall>compiledDefinition. closureCheck (compiledDefinition, {}) = Return compiledDefinition"
    by blast
  from g seeded have "g = nativeEnv" by simp
  with run root returns have whole: "compileGlobalTreeDefinition 6 sharedDef nativeEnv = Return ?cd"
    by simp
  have "{''z''} \<noteq> ({} :: StreamID set)" by simp
  with throws have thrown: "closureCheck (?cd, {''z''}) = Throw (Error [])" by blast
  from wf root whole thrown show ?thesis by (intro conjI)
qed

section \<open>Registration of local ids\<close>

lemma env_has_local: "map_of (local_frame e) k \<noteq> None \<Longrightarrow> env_has e k"
  by (induction e k rule: env_has.induct) simp_all

lemma env_set_absent:
  "\<not> env_has e k \<Longrightarrow> env_set e k v = Return (case e of Environment out m \<Rightarrow> Environment out (m @ [(k, v)]))"
  by (induction e k rule: env_has.induct) simp_all

text \<open>
  C6, as the claim states it, fails: an id bound only in an enclosing frame makes the
  registration throw, although the local frame does not hold it; a function whose body
  defines an id of the enclosing scope does not compile.
\<close>

theorem outer_binding_blocks_registration:
  "registerStream ''x'' (Some (NumberLiteral 5 ''x'' 2)) shadowLocals = Throw (Error ''must be unique'')
   \<and> map_of (local_frame (streamEnvironment shadowLocals)) ''x'' = None
   \<and> compileGlobalTreeDefinition 5 shadowDef nativeEnv = Throw (Error ''must be unique'')"
  by code_simp

text \<open>
  C6, amended.  Registering a stream or function id throws the duplicate-id error exactly
  when the id is visible through the chain of the scope's environment, that is in its local
  frame or in any enclosing frame; otherwise the registration succeeds.
\<close>

theorem register_fails_iff_visible:
  "(registerStream s v L = Throw (Error ''must be unique'') \<longleftrightarrow> env_has (streamEnvironment L) s)
   \<and> (\<not> env_has (streamEnvironment L) s \<longrightarrow> (\<exists>L'. registerStream s v L = Return L'))
   \<and> (registerFunction node L = Throw (Error ''must be unique'') \<longleftrightarrow>
        env_has (functionEnvironment L) (functionExprId node))
   \<and> (\<not> env_has (functionEnvironment L) (functionExprId node) \<longrightarrow>
        (\<exists>L'. registerFunction node L = Return L'))"
  by (simp add: registerStream_def registerFunction_def env_set_absent)

theorem register_fails_iff_visible_witness:
  "registerStream ''x'' None shadowLocals = Throw (Error ''must be unique'')
   \<and> env_has (streamEnvironment shadowLocals) ''x''
   \<and> \<not> env_has (streamEnvironment shadowLocals) ''y''
   \<and> (\<exists>L'. registerStream ''y'' None shadowLocals = Return L')"
  using register_fails_iff_visible [of "''x''" None shadowLocals "FunctionReference ''f''"]
    register_fails_iff_visible [of "''y''" None shadowLocals "FunctionReference ''f''"]
  by (simp add: shadowLocals_def)

section \<open>Traversals and the relation of successful runs\<close>

lemma rbind_Return_iff:
  "rbind m f = Return y \<longleftrightarrow> (\<exists>x. m = Return x \<and> f x = Return y)"
  by (cases m) simp_all

lemma rbind_OutOfFuel_iff:
  "rbind m f = OutOfFuel \<longleftrightarrow> (m = OutOfFuel \<or> (\<exists>x. m = Return x \<and> f x = OutOfFuel))"
  by (cases m) simp_all

lemma resolveFargs_Return:
  "resolveFargs fenv fargs acc = Return ids \<Longrightarrow>
     ids = acc @ map functionExprId fargs \<and> (\<forall>farg \<in> set fargs. env_get fenv (functionExprId farg) \<noteq> None)"
proof (induction fargs arbitrary: acc)
  case Nil
  then show ?case by simp
next
  case (Cons farg fargs)
  from Cons.prems have found: "env_get fenv (functionExprId farg) \<noteq> None"
    and rest: "resolveFargs fenv fargs (acc @ [functionExprId farg]) = Return ids"
    by (auto split: option.splits)
  from Cons.IH [OF rest] found show ?case by simp
qed

lemma traverseArgs_Return:
  assumes "\<And>sarg st st'. trav sarg st = Return st' \<Longrightarrow> resolves senv fenv lsids sarg st st'"
    and "traverseArgs trav sargs acc st = Return (ids, st')"
  shows "resolvesAll senv fenv lsids sargs st st'
       \<and> ids = acc @ map (\<lambda>sarg. the (streamExprReturnedId sarg)) sargs
       \<and> (\<forall>sarg \<in> set sargs. \<not> falsy (streamExprReturnedId sarg))"
  using assms(2)
proof (induction sargs arbitrary: acc st)
  case Nil
  then show ?case by (simp add: resolves_resolvesAll.NoArgs)
next
  case (Cons sarg sargs)
  from Cons.prems obtain st1 where
    first: "trav sarg st = Return st1" and
    ok: "\<not> falsy (streamExprReturnedId sarg)" and
    rest: "traverseArgs trav sargs (acc @ [the (streamExprReturnedId sarg)]) st1 = Return (ids, st')"
    by (auto simp: rbind_Return_iff split: if_splits)
  from Cons.IH [OF rest] assms(1) [OF first] ok show ?case
    by (auto intro: resolves_resolvesAll.MoreArgs)
qed

lemma traverseCase_Return:
  assumes "\<And>sarg st st'. trav sarg st = Return st' \<Longrightarrow> resolves senv fenv lsids sarg st st'"
    and "oid node \<notin> permanentMarked st" and "oid node \<notin> temporaryMarked st"
    and "traverseCase trav senv fenv lsids node st = Return st1"
  shows "resolves senv fenv lsids node st (st1\<lparr>permanentMarked := insert (oid node) (permanentMarked st1)\<rparr>)"
proof (cases node)
  case (UndefinedLiteral r s)
  with assms(2-4) resolves_resolvesAll.Literal [of node st senv fenv lsids] show ?thesis by auto
next
  case (NumberLiteral r s v)
  with assms(2-4) resolves_resolvesAll.Literal [of node st senv fenv lsids] show ?thesis by auto
next
  case (TextLiteral r s v)
  with assms(2-4) resolves_resolvesAll.Literal [of node st senv fenv lsids] show ?thesis by auto
next
  case (BooleanLiteral r s v)
  with assms(2-4) resolves_resolvesAll.Literal [of node st senv fenv lsids] show ?thesis by auto
next
  case (StreamReference r t)
  show ?thesis
  proof (cases "t \<in> lsids")
    case True
    show ?thesis
    proof (cases "env_get senv t")
      case None
      with True StreamReference assms(4) show ?thesis by simp
    next
      case (Some v)
      show ?thesis
      proof (cases v)
        case None
        with Some True StreamReference assms(2-4) resolves_resolvesAll.Param [of r st t lsids senv fenv]
        show ?thesis by auto
      next
        case (Some target)
        with \<open>env_get senv t = Some v\<close> True StreamReference assms(4) obtain st2 where
          run: "trav target (st\<lparr>temporaryMarked := insert r (temporaryMarked st)\<rparr>) = Return st2"
          and st1: "st1 = st2\<lparr>temporaryMarked := temporaryMarked st2 - {r}\<rparr>"
          by (auto simp: rbind_Return_iff)
        from resolves_resolvesAll.Local [of r st t lsids senv target fenv st2]
          assms(1) [OF run] assms(2,3) True Some \<open>env_get senv t = Some v\<close> StreamReference st1
        show ?thesis by simp
      qed
    qed
  next
    case False
    with StreamReference assms(2-4) resolves_resolvesAll.External [of r st t lsids senv fenv]
    show ?thesis by (auto split: if_splits)
  qed
next
  case (Application r aid outs func sargs fargs)
  with assms(4) obtain fn ids st2 fids where
    fn: "env_get fenv (functionExprId func) = Some fn" and
    args: "traverseArgs trav sargs [] (st\<lparr>temporaryMarked := insert r (temporaryMarked st)\<rparr>) = Return (ids, st2)" and
    fargs: "resolveFargs fenv fargs [] = Return fids" and
    st1: "st1 = st2\<lparr>temporaryMarked := temporaryMarked st2 - {r},
                    apps := apps st2 @ [AppSpec (map ApplicationOut.sid outs) aid (functionExprId func) ids fids]\<rparr>"
    by (auto simp: rbind_Return_iff split: option.splits)
  from traverseArgs_Return [OF assms(1) args] have
    all: "resolvesAll senv fenv lsids sargs (st\<lparr>temporaryMarked := insert r (temporaryMarked st)\<rparr>) st2"
    and ids: "ids = map (\<lambda>sarg. the (streamExprReturnedId sarg)) sargs"
    and oks: "\<forall>sarg \<in> set sargs. \<not> falsy (streamExprReturnedId sarg)"
    by simp_all
  from resolveFargs_Return [OF fargs] have
    fids: "fids = map functionExprId fargs" and
    fok: "\<forall>farg \<in> set fargs. env_get fenv (functionExprId farg) \<noteq> None"
    by simp_all
  from resolves_resolvesAll.Applied [of r st fenv func senv lsids sargs st2 fargs aid outs]
    assms(2,3) fn all oks fok Application st1 ids fids
  show ?thesis by simp
qed

lemma traverseStreamExpr_resolves:
  "traverseStreamExpr fuel senv fenv lsids node st = Return st' \<Longrightarrow> resolves senv fenv lsids node st st'"
proof (induction fuel arbitrary: node st st')
  case 0
  then show ?case by simp
next
  case (Suc fuel)
  show ?case
  proof (cases "oid node \<in> permanentMarked st")
    case True
    with Suc.prems show ?thesis by (simp add: resolves_resolvesAll.Marked)
  next
    case False
    with Suc.prems have nt: "oid node \<notin> temporaryMarked st" by (auto split: if_splits)
    with False Suc.prems obtain st1 where
      body: "traverseCase (traverseStreamExpr fuel senv fenv lsids) senv fenv lsids node st = Return st1"
      and st': "st' = st1\<lparr>permanentMarked := insert (oid node) (permanentMarked st1)\<rparr>"
      by (auto simp: rbind_Return_iff)
    from traverseCase_Return [OF Suc.IH False nt body] st' show ?thesis by simp
  qed
qed

section \<open>Invariants of the traversal and of the collector\<close>

subsection \<open>Frame facts of a successful traversal\<close>

lemma resolves_marks:
  "resolves senv fenv lsids node st st' \<Longrightarrow>
     temporaryMarked st' = temporaryMarked st \<and> permanentMarked st \<subseteq> permanentMarked st'
     \<and> oid node \<in> permanentMarked st'
     \<and> permanentMarked st' \<inter> temporaryMarked st \<subseteq> permanentMarked st
     \<and> yieldIds st' = yieldIds st"
  and resolvesAll_marks:
  "resolvesAll senv fenv lsids nodes st st' \<Longrightarrow>
     temporaryMarked st' = temporaryMarked st \<and> permanentMarked st \<subseteq> permanentMarked st'
     \<and> oid ` set nodes \<subseteq> permanentMarked st'
     \<and> permanentMarked st' \<inter> temporaryMarked st \<subseteq> permanentMarked st
     \<and> yieldIds st' = yieldIds st"
proof (induction rule: resolves_resolvesAll.inducts)
  case (Local r st t target st1)
  then show ?case by auto
next
  case (Applied r st func sargs st1 fargs aid outs)
  then show ?case by auto
next
  case (MoreArgs sarg st st1 sargs st2)
  then show ?case by auto
qed auto

lemma resolves_external:
  "resolves senv fenv lsids node st st' \<Longrightarrow>
     externalReferencedStreamIds st' \<subseteq>
       externalReferencedStreamIds st \<union> {t. t \<notin> lsids \<and> env_has senv t}"
  and resolvesAll_external:
  "resolvesAll senv fenv lsids nodes st st' \<Longrightarrow>
     externalReferencedStreamIds st' \<subseteq>
       externalReferencedStreamIds st \<union> {t. t \<notin> lsids \<and> env_has senv t}"
  by (induction rule: resolves_resolvesAll.inducts) auto

subsection \<open>The body pass preserves what every traversal preserves\<close>

lemma snodes_self: "n \<in> snodes n"
  by (cases n) simp_all

lemma bodyPass_preserves:
  assumes trav: "\<And>n st st'. trav n st = Return st' \<Longrightarrow> resolves senv fenv lsids n st st'"
    and step: "\<And>n st st'. \<lbrakk>n \<in> U; P st; resolves senv fenv lsids n st st'\<rbrakk> \<Longrightarrow> P st'"
    and yield: "\<And>st ys. P st \<Longrightarrow> P (st\<lparr>yieldIds := ys\<rparr>)"
    and run: "bodyPass trav body st = Return st'"
    and init: "P st"
    and sub: "bodyNodes body \<subseteq> U"
  shows "P st'"
  using run init sub
proof (induction body arbitrary: st)
  case Nil
  then show ?case by simp
next
  case (Cons b body)
  show ?case
  proof (cases b)
    case (StreamExpression n)
    with Cons.prems(1) obtain st1 where first: "trav n st = Return st1"
      and rest: "bodyPass trav body st1 = Return st'"
      by (auto simp: rbind_Return_iff)
    have mem: "n \<in> U" and sub': "bodyNodes body \<subseteq> U"
      using StreamExpression Cons.prems(3) snodes_self [of n] by auto
    from step [OF mem Cons.prems(2) trav [OF first]] have "P st1" .
    from Cons.IH [OF rest this sub'] show ?thesis .
  next
    case (FunctionExpression f)
    with Cons.prems(1) show ?thesis by simp
  next
    case (YieldExpression idx n)
    with Cons.prems(1) obtain st1 where first: "trav n st = Return st1"
      and rest: "bodyPass trav body
          (st1\<lparr>yieldIds := setYield (yieldIds st1) idx (the (streamExprReturnedId n))\<rparr>) = Return st'"
      by (auto simp: rbind_Return_iff split: if_splits)
    have mem: "n \<in> U" and sub': "bodyNodes body \<subseteq> U"
      using YieldExpression Cons.prems(3) snodes_self [of n] by auto
    from step [OF mem Cons.prems(2) trav [OF first]] have "P st1" .
    from Cons.IH [OF rest yield [OF this] sub'] show ?thesis .
  qed
qed

subsection \<open>Effects of registration\<close>

lemma map_add_fresh:
  "f k = None \<Longrightarrow> [k \<mapsto> v] ++ f = f(k \<mapsto> v)"
  by (rule ext) (simp add: map_add_def split: option.splits)

lemma env_has_imp_local_absent: "\<not> env_has e k \<Longrightarrow> map_of (local_frame e) k = None"
  using env_has_local by fastforce

lemma registerStream_Return:
  assumes "registerStream s v L = Return L'"
  shows "smap L s = None \<and> smap L' = (smap L)(s \<mapsto> v)
       \<and> localStreamIds L' = insert s (localStreamIds L)
       \<and> functionEnvironment L' = functionEnvironment L
       \<and> localFunctionIds L' = localFunctionIds L
       \<and> outer_env (streamEnvironment L') = outer_env (streamEnvironment L)"
proof -
  obtain out m where env: "streamEnvironment L = Environment out m"
    by (cases "streamEnvironment L")
  from assms have nh: "\<not> env_has (streamEnvironment L) s"
    by (auto simp: registerStream_def split: if_splits)
  then have absent: "map_of m s = None"
    using env_has_imp_local_absent [of "streamEnvironment L" s] env by simp
  from assms nh env absent have "L' = L\<lparr>streamEnvironment := Environment out (m @ [(s, v)]),
      localStreamIds := insert s (localStreamIds L)\<rparr>"
    by (simp add: registerStream_def)
  with env absent show ?thesis by (simp add: smap_def map_add_fresh)
qed

lemma registerStreams_Return:
  "registerStreams ss v L = Return L' \<Longrightarrow>
     (\<forall>x \<in> set ss. smap L x = None)
     \<and> (\<forall>x. smap L' x = (if x \<in> set ss then Some v else smap L x))
     \<and> localStreamIds L' = localStreamIds L \<union> set ss
     \<and> functionEnvironment L' = functionEnvironment L
     \<and> localFunctionIds L' = localFunctionIds L
     \<and> outer_env (streamEnvironment L') = outer_env (streamEnvironment L)"
proof (induction ss arbitrary: L)
  case Nil
  then show ?case by simp
next
  case (Cons s ss)
  from Cons.prems obtain L1 where first: "registerStream s v L = Return L1"
    and rest: "registerStreams ss v L1 = Return L'"
    by (auto simp: rbind_Return_iff)
  note one = registerStream_Return [OF first]
  note more = Cons.IH [OF rest]
  from one more have fresh: "s \<notin> set ss" by auto
  have absent: "\<forall>x \<in> set (s # ss). smap L x = None"
  proof
    fix x assume "x \<in> set (s # ss)"
    then consider "x = s" | "x \<in> set ss" "x \<noteq> s" using fresh by auto
    then show "smap L x = None"
    proof cases
      case 1
      with one show ?thesis by simp
    next
      case 2
      with more have "smap L1 x = None" by simp
      with one 2 show ?thesis by simp
    qed
  qed
  have upd: "\<forall>x. smap L' x = (if x \<in> set (s # ss) then Some v else smap L x)"
  proof
    fix x
    from more have "smap L' x = (if x \<in> set ss then Some v else smap L1 x)" by blast
    also have "\<dots> = (if x \<in> set (s # ss) then Some v else smap L x)"
      using one by simp
    finally show "smap L' x = (if x \<in> set (s # ss) then Some v else smap L x)" .
  qed
  have ids: "localStreamIds L' = localStreamIds L \<union> set (s # ss)"
    using one more by auto
  have others: "functionEnvironment L' = functionEnvironment L"
    "localFunctionIds L' = localFunctionIds L"
    "outer_env (streamEnvironment L') = outer_env (streamEnvironment L)"
    using one more by simp_all
  from absent upd ids others show ?case by blast
qed

lemma registerFunction_Return:
  assumes "registerFunction node L = Return L'"
  shows "fmap L (functionExprId node) = None
       \<and> fmap L' = (fmap L)(functionExprId node \<mapsto> node)
       \<and> set (localFunctionIds L') = insert (functionExprId node) (set (localFunctionIds L))
       \<and> (distinct (localFunctionIds L) \<longrightarrow> distinct (localFunctionIds L'))
       \<and> streamEnvironment L' = streamEnvironment L
       \<and> localStreamIds L' = localStreamIds L
       \<and> outer_env (functionEnvironment L') = outer_env (functionEnvironment L)"
proof -
  obtain out m where env: "functionEnvironment L = Environment out m"
    by (cases "functionEnvironment L")
  from assms have nh: "\<not> env_has (functionEnvironment L) (functionExprId node)"
    by (auto simp: registerFunction_def split: if_splits)
  then have absent: "map_of m (functionExprId node) = None"
    using env_has_imp_local_absent [of "functionEnvironment L" "functionExprId node"] env by simp
  from assms nh env absent have "L' = L\<lparr>functionEnvironment := Environment out (m @ [(functionExprId node, node)]),
      localFunctionIds := (if functionExprId node \<in> set (localFunctionIds L)
         then localFunctionIds L else localFunctionIds L @ [functionExprId node])\<rparr>"
    by (simp add: registerFunction_def)
  with env absent show ?thesis by (auto simp: fmap_def map_add_fresh)
qed

subsection \<open>The collector establishes its invariant\<close>

lemma collectedI:
  assumes "dom (smap L) = localStreamIds L"
    and "\<And>x T. smap L x = Some (Some T) \<Longrightarrow> T \<in> V \<and> x \<in> definedIds T"
    and "\<And>N x. N \<in> V \<Longrightarrow> x \<in> definedIds N \<Longrightarrow> smap L x = Some (Some N)"
    and "dom (fmap L) = set (localFunctionIds L)"
    and "\<And>f nd. fmap L f = Some nd \<Longrightarrow> nd \<in> F \<and> functionExprId nd = f"
    and "\<And>nd. nd \<in> F \<Longrightarrow> fmap L (functionExprId nd) = Some nd"
    and "distinct (localFunctionIds L)"
  shows "collected L V F"
  unfolding collected_def using assms by blast

lemma collected_dom: "collected L V F \<Longrightarrow> dom (smap L) = localStreamIds L"
  unfolding collected_def by blast

lemma collected_bound:
  "collected L V F \<Longrightarrow> smap L x = Some (Some T) \<Longrightarrow> T \<in> V \<and> x \<in> definedIds T"
  unfolding collected_def by blast

lemma collected_defines:
  "collected L V F \<Longrightarrow> N \<in> V \<Longrightarrow> x \<in> definedIds N \<Longrightarrow> smap L x = Some (Some N)"
  unfolding collected_def by blast

lemma collected_fdom: "collected L V F \<Longrightarrow> dom (fmap L) = set (localFunctionIds L)"
  unfolding collected_def by blast

lemma collected_fbound:
  "collected L V F \<Longrightarrow> fmap L f = Some nd \<Longrightarrow> nd \<in> F \<and> functionExprId nd = f"
  unfolding collected_def by blast

lemma collected_fdefines:
  "collected L V F \<Longrightarrow> nd \<in> F \<Longrightarrow> fmap L (functionExprId nd) = Some nd"
  unfolding collected_def by blast

lemma collected_distinct: "collected L V F \<Longrightarrow> distinct (localFunctionIds L)"
  unfolding collected_def by blast

lemma collected_register:
  assumes reg: "registerStreams ss v L = Return L'" and inv: "collected L V F"
    and val: "\<And>T. v = Some T \<Longrightarrow> T \<in> V' \<and> set ss \<subseteq> definedIds T"
    and new: "\<And>N x. N \<in> V' \<Longrightarrow> N \<notin> V \<Longrightarrow> x \<in> definedIds N \<Longrightarrow> x \<in> set ss \<and> v = Some N"
    and sub: "V \<subseteq> V'"
  shows "collected L' V' F"
proof (rule collectedI)
  note eff = registerStreams_Return [OF reg]
  from eff have absent: "\<And>x. x \<in> set ss \<Longrightarrow> smap L x = None" by blast
  from eff have upd: "\<And>x. smap L' x = (if x \<in> set ss then Some v else smap L x)" by blast
  have "dom (smap L') = dom (smap L) \<union> set ss"
  proof (rule set_eqI)
    fix x show "x \<in> dom (smap L') \<longleftrightarrow> x \<in> dom (smap L) \<union> set ss"
      using upd [of x] by (cases "x \<in> set ss") (simp_all add: dom_def)
  qed
  with eff collected_dom [OF inv] show "dom (smap L') = localStreamIds L'" by simp
  show "T \<in> V' \<and> x \<in> definedIds T" if "smap L' x = Some (Some T)" for x T
  proof (cases "x \<in> set ss")
    case True
    with upd [of x] that have "v = Some T" by simp
    from val [OF this] True show ?thesis by blast
  next
    case False
    with upd [of x] that have "smap L x = Some (Some T)" by simp
    from collected_bound [OF inv this] sub show ?thesis by blast
  qed
  show "smap L' x = Some (Some N)" if "N \<in> V'" and "x \<in> definedIds N" for N x
  proof (cases "N \<in> V")
    case True
    from collected_defines [OF inv True that(2)] have old: "smap L x = Some (Some N)" .
    with absent [of x] have "x \<notin> set ss" by auto
    with upd [of x] old show ?thesis by simp
  next
    case False
    from new [OF that(1) False that(2)] upd [of x] show ?thesis by simp
  qed
  from eff have "fmap L' = fmap L" by (simp add: fmap_def)
  with eff collected_fdom [OF inv] show "dom (fmap L') = set (localFunctionIds L')" by simp
  show "nd \<in> F \<and> functionExprId nd = f" if "fmap L' f = Some nd" for f nd
    using that \<open>fmap L' = fmap L\<close> collected_fbound [OF inv] by simp
  show "fmap L' (functionExprId nd) = Some nd" if "nd \<in> F" for nd
    using that \<open>fmap L' = fmap L\<close> collected_fdefines [OF inv] by simp
  from eff collected_distinct [OF inv] show "distinct (localFunctionIds L')" by simp
qed

lemma collected_params:
  assumes "registerStreams ss None L = Return L'" and "collected L V F"
  shows "collected L' V F"
  by (rule collected_register [OF assms]) simp_all

lemma collected_define:
  assumes "registerStreams ss (Some N) L = Return L'" and "collected L V F"
    and "definedIds N = set ss"
  shows "collected L' (insert N V) F"
  by (rule collected_register [OF assms(1,2)]) (use assms(3) in auto)

lemma collected_function:
  assumes "visitFunctionExpr f L = Return L'" and inv: "collected L V F"
  shows "collected L' V (F \<union> fdefsOf f)
       \<and> outer_env (streamEnvironment L') = outer_env (streamEnvironment L)
       \<and> outer_env (functionEnvironment L') = outer_env (functionEnvironment L)"
proof (cases "isFunctionDefinitionNode f")
  case True
  with assms(1) have reg: "registerFunction f L = Return L'" by simp
  note eff = registerFunction_Return [OF reg]
  have sm: "smap L' = smap L" using eff by (simp add: smap_def)
  have "collected L' V (F \<union> fdefsOf f)"
  proof (rule collectedI)
    from sm eff collected_dom [OF inv] show "dom (smap L') = localStreamIds L'" by simp
    show "T \<in> V \<and> x \<in> definedIds T" if "smap L' x = Some (Some T)" for x T
      using that sm collected_bound [OF inv] by simp
    show "smap L' x = Some (Some N)" if "N \<in> V" and "x \<in> definedIds N" for N x
      using that sm collected_defines [OF inv] by simp
    from eff collected_fdom [OF inv] show "dom (fmap L') = set (localFunctionIds L')" by simp
    show "nd \<in> F \<union> fdefsOf f \<and> functionExprId nd = g" if "fmap L' g = Some nd" for g nd
    proof (cases "g = functionExprId f")
      case True
      with that eff have "nd = f" by simp
      with True \<open>isFunctionDefinitionNode f\<close> show ?thesis by simp
    next
      case False
      with that eff have "fmap L g = Some nd" by simp
      from collected_fbound [OF inv this] show ?thesis by simp
    qed
    show "fmap L' (functionExprId nd) = Some nd" if "nd \<in> F \<union> fdefsOf f" for nd
    proof (cases "nd \<in> F")
      case True
      from collected_fdefines [OF inv True] have old: "fmap L (functionExprId nd) = Some nd" .
      with eff have "functionExprId nd \<noteq> functionExprId f" by auto
      with eff old show ?thesis by simp
    next
      case False
      with that \<open>isFunctionDefinitionNode f\<close> have "nd = f" by simp
      with eff show ?thesis by simp
    qed
    from eff collected_distinct [OF inv] show "distinct (localFunctionIds L')" by simp
  qed
  with eff show ?thesis by simp
next
  case False
  with assms show ?thesis by simp
qed

lemma collected_functions:
  "visitFunctionExprs fs L = Return L' \<Longrightarrow> collected L V F \<Longrightarrow>
     collected L' V (F \<union> (\<Union>f \<in> set fs. fdefsOf f))
     \<and> outer_env (streamEnvironment L') = outer_env (streamEnvironment L)
     \<and> outer_env (functionEnvironment L') = outer_env (functionEnvironment L)"
proof (induction fs arbitrary: L F)
  case Nil
  then show ?case by simp
next
  case (Cons f fs)
  from Cons.prems(1) obtain L1 where first: "visitFunctionExpr f L = Return L1"
    and rest: "visitFunctionExprs fs L1 = Return L'"
    by (auto simp: rbind_Return_iff)
  note one = collected_function [OF first Cons.prems(2)]
  from one have c1: "collected L1 V (F \<union> fdefsOf f)" by simp
  note more = Cons.IH [OF rest c1]
  have "F \<union> fdefsOf f \<union> (\<Union>f \<in> set fs. fdefsOf f) = F \<union> (\<Union>f \<in> set (f # fs). fdefsOf f)"
    by auto
  with one more show ?case by simp
qed

lemma collected_stream:
  "visitStreamExpr n L = Return L' \<Longrightarrow> collected L V F \<Longrightarrow>
     collected L' (V \<union> snodes n) (F \<union> fnodes n)
     \<and> outer_env (streamEnvironment L') = outer_env (streamEnvironment L)
     \<and> outer_env (functionEnvironment L') = outer_env (functionEnvironment L)"
  and collected_streams:
  "visitStreamExprs ns L = Return L' \<Longrightarrow> collected L V F \<Longrightarrow>
     collected L' (V \<union> snodesAll ns) (F \<union> fnodesAll ns)
     \<and> outer_env (streamEnvironment L') = outer_env (streamEnvironment L)
     \<and> outer_env (functionEnvironment L') = outer_env (functionEnvironment L)"
proof (induction n L and ns L arbitrary: L' V F and L' V F rule: visitStreamExpr_visitStreamExprs.induct)
  case (1 r s L)
  then have reg: "registerStreams [s] (Some (UndefinedLiteral r s)) L = Return L'"
    by (simp add: rbind_Return_iff)
  from collected_define [OF reg "1.prems"(2)] registerStreams_Return [OF reg]
  show ?case by simp
next
  case (2 r s v L)
  then have reg: "registerStreams [s] (Some (NumberLiteral r s v)) L = Return L'"
    by (simp add: rbind_Return_iff)
  from collected_define [OF reg "2.prems"(2)] registerStreams_Return [OF reg]
  show ?case by simp
next
  case (3 r s v L)
  then have reg: "registerStreams [s] (Some (TextLiteral r s v)) L = Return L'"
    by (simp add: rbind_Return_iff)
  from collected_define [OF reg "3.prems"(2)] registerStreams_Return [OF reg]
  show ?case by simp
next
  case (4 r s v L)
  then have reg: "registerStreams [s] (Some (BooleanLiteral r s v)) L = Return L'"
    by (simp add: rbind_Return_iff)
  from collected_define [OF reg "4.prems"(2)] registerStreams_Return [OF reg]
  show ?case by simp
next
  case (5 r t L)
  then have same: "L' = L" by simp
  have "collected L (V \<union> {StreamReference r t}) F"
  proof (rule collectedI)
    show "dom (smap L) = localStreamIds L" by (rule collected_dom [OF "5.prems"(2)])
    show "T \<in> V \<union> {StreamReference r t} \<and> x \<in> definedIds T" if "smap L x = Some (Some T)" for x T
      using collected_bound [OF "5.prems"(2) that] by simp
    show "smap L x = Some (Some N)" if "N \<in> V \<union> {StreamReference r t}" and "x \<in> definedIds N" for N x
    proof (cases "N = StreamReference r t")
      case True
      with that(2) show ?thesis by simp
    next
      case False
      with that(1) have "N \<in> V" by simp
      from collected_defines [OF "5.prems"(2) this that(2)] show ?thesis .
    qed
    show "dom (fmap L) = set (localFunctionIds L)" by (rule collected_fdom [OF "5.prems"(2)])
    show "nd \<in> F \<and> functionExprId nd = f" if "fmap L f = Some nd" for f nd
      by (rule collected_fbound [OF "5.prems"(2) that])
    show "fmap L (functionExprId nd) = Some nd" if "nd \<in> F" for nd
      by (rule collected_fdefines [OF "5.prems"(2) that])
    show "distinct (localFunctionIds L)" by (rule collected_distinct [OF "5.prems"(2)])
  qed
  with same show ?case by simp
next
  case (6 r aid outs func sargs fargs L)
  let ?N = "Application r aid outs func sargs fargs"
  from "6.prems"(1) obtain L1 L2 L3 where
    reg: "registerStreams (map ApplicationOut.sid outs) (Some ?N) L = Return L1" and
    fn: "visitFunctionExpr func L1 = Return L2" and
    args: "visitStreamExprs sargs L2 = Return L3" and
    fargs: "visitFunctionExprs fargs L3 = Return L'"
    by (auto simp: rbind_Return_iff)
  have c1: "collected L1 (insert ?N V) F"
    using collected_define [OF reg "6.prems"(2)] by simp
  note e1 = registerStreams_Return [OF reg]
  note s2 = collected_function [OF fn c1]
  from s2 have c2: "collected L2 (insert ?N V) (F \<union> fdefsOf func)" by simp
  note s3 = "6.IH" [OF args c2]
  from s3 have c3: "collected L3 (insert ?N V \<union> snodesAll sargs) (F \<union> fdefsOf func \<union> fnodesAll sargs)"
    by simp
  note s4 = collected_functions [OF fargs c3]
  have V: "insert ?N V \<union> snodesAll sargs = V \<union> snodes ?N" by auto
  have F: "F \<union> fdefsOf func \<union> fnodesAll sargs \<union> (\<Union>f \<in> set fargs. fdefsOf f) = F \<union> fnodes ?N"
    by (simp only: fnodes.simps Un_assoc)
  from s4 have "collected L' (V \<union> snodes ?N) (F \<union> fnodes ?N)"
    unfolding V F by simp
  moreover from e1 s2 s3 s4 have
    "outer_env (streamEnvironment L') = outer_env (streamEnvironment L)"
    "outer_env (functionEnvironment L') = outer_env (functionEnvironment L)"
    by simp_all
  ultimately show ?case by simp
next
  case (7 L)
  then show ?case by simp
next
  case (8 n ns L)
  from "8.prems"(1) obtain L1 where first: "visitStreamExpr n L = Return L1"
    and rest: "visitStreamExprs ns L1 = Return L'"
    by (auto simp: rbind_Return_iff)
  note s1 = "8.IH"(1) [OF first "8.prems"(2)]
  from s1 have c1: "collected L1 (V \<union> snodes n) (F \<union> fnodes n)" by simp
  note s2 = "8.IH"(2) [OF rest c1]
  from s1 s2 show ?case by (simp add: Un_assoc)
qed

lemma collected_body:
  "visitBodyExprs body L = Return L' \<Longrightarrow> collected L V F \<Longrightarrow>
     collected L' (V \<union> bodyNodes body) (F \<union> bodyFunctions body)
     \<and> outer_env (streamEnvironment L') = outer_env (streamEnvironment L)
     \<and> outer_env (functionEnvironment L') = outer_env (functionEnvironment L)"
proof (induction body arbitrary: L V F)
  case Nil
  then show ?case by simp
next
  case (Cons b body)
  from Cons.prems(1) obtain L1 where first: "visitBodyExpr b L = Return L1"
    and rest: "visitBodyExprs body L1 = Return L'"
    by (auto simp: rbind_Return_iff)
  show ?case
  proof (cases b)
    case (StreamExpression n)
    with first have "visitStreamExpr n L = Return L1" by simp
    note s1 = collected_stream [OF this Cons.prems(2)]
    from s1 have c1: "collected L1 (V \<union> snodes n) (F \<union> fnodes n)" by simp
    from Cons.IH [OF rest c1] s1 StreamExpression show ?thesis by (simp add: Un_assoc)
  next
    case (FunctionExpression f)
    with first have "visitFunctionExpr f L = Return L1" by simp
    note s1 = collected_function [OF this Cons.prems(2)]
    from s1 have c1: "collected L1 V (F \<union> fdefsOf f)" by simp
    from Cons.IH [OF rest c1] s1 FunctionExpression show ?thesis by (simp add: Un_assoc)
  next
    case (YieldExpression idx n)
    with first have "visitStreamExpr n L = Return L1" by simp
    note s1 = collected_stream [OF this Cons.prems(2)]
    from s1 have c1: "collected L1 (V \<union> snodes n) (F \<union> fnodes n)" by simp
    from Cons.IH [OF rest c1] s1 YieldExpression show ?thesis by (simp add: Un_assoc)
  qed
qed

lemma collectLocals_collected:
  assumes "collectLocals (TreeFunctionDefinitionNode f sparams fparams body) osenv ofenv = Return L"
  shows "collected L (bodyNodes body) (bodyFunctions body)
       \<and> outer_env (streamEnvironment L) = Some osenv
       \<and> outer_env (functionEnvironment L) = Some ofenv"
proof -
  let ?L0 = "\<lparr>streamEnvironment = Environment (Some osenv) [],
              functionEnvironment = Environment (Some ofenv) [],
              localStreamIds = {}, localFunctionIds = []\<rparr>"
  from assms obtain L1 where params: "registerStreams sparams None ?L0 = Return L1"
    and walk: "visitBodyExprs body L1 = Return L"
    by (auto simp: collectLocals_def rbind_Return_iff)
  have c0: "collected ?L0 {} {}"
    by (rule collectedI) (simp_all add: smap_def fmap_def)
  note c1 = collected_params [OF params c0]
  note e1 = registerStreams_Return [OF params]
  from collected_body [OF walk c1] e1 show ?thesis by simp
qed

section \<open>The root scope is closed\<close>

subsection \<open>The parts of a successful compilation\<close>

lemma compileTreeDefinition_Return:
  assumes "compileTreeDefinition fuel (TreeFunctionDefinitionNode f sparams fparams body) osenv ofenv
             = Return (cd, ext)"
  obtains n L lds st where "fuel = Suc n"
    and "collectLocals (TreeFunctionDefinitionNode f sparams fparams body) osenv ofenv = Return L"
    and "compileLocalDefs
           (\<lambda>funcDef. compileTreeDefinition n funcDef (streamEnvironment L) (functionEnvironment L))
           (functionEnvironment L) (localFunctionIds L) [] = Return lds"
    and "bodyPass (traverseStreamExpr n (streamEnvironment L) (functionEnvironment L) (localStreamIds L))
           body initialState = Return st"
    and "cd = CompiledDefinition sparams fparams (constStreams st) (apps st) lds (yieldIds st)"
    and "ext = externalReferencedStreamIds st"
proof (cases fuel)
  case 0
  with assms show ?thesis by simp
next
  case (Suc n)
  with assms that show ?thesis
    by (auto simp: rbind_Return_iff)
qed

lemma env_has_empty_outer:
  assumes "outer_env e = Some (Environment None [])"
  shows "env_has e k \<longleftrightarrow> map_of (local_frame e) k \<noteq> None"
  using assms by (cases e) auto

text \<open>
  C10.  Compiled against an empty outer stream environment, \<open>compileTreeDefinition\<close>
  returns an empty set of externally referenced stream ids: an id enters the set only when
  it is not local but visible through the chain, and with an empty outer frame everything
  visible is in the local frame, whose keys are the local ids; the sets of the nested local
  definitions are dropped.  So the closure check of \<open>compileGlobalTreeDefinition\<close> never
  fires.
\<close>

theorem root_compile_has_no_external_ids:
  assumes "compileTreeDefinition fuel definition (Environment None []) outerFunctionEnvironment
             = Return (compiledDefinition, ext)"
  shows "ext = {}"
proof -
  obtain f sparams fparams body where d: "definition = TreeFunctionDefinitionNode f sparams fparams body"
    by (cases "definition")
  from assms [unfolded d] obtain n L lds st where
    coll: "collectLocals (TreeFunctionDefinitionNode f sparams fparams body) (Environment None [])
             outerFunctionEnvironment = Return L"
    and pass: "bodyPass (traverseStreamExpr n (streamEnvironment L) (functionEnvironment L) (localStreamIds L))
           body initialState = Return st"
    and ext: "ext = externalReferencedStreamIds st"
    by (rule compileTreeDefinition_Return)
  note inv = collectLocals_collected [OF coll]
  let ?E = "{t. t \<notin> localStreamIds L \<and> env_has (streamEnvironment L) t}"
  have "externalReferencedStreamIds st \<subseteq> ?E"
  proof (rule bodyPass_preserves [where P = "\<lambda>st. externalReferencedStreamIds st \<subseteq> ?E"
        and U = UNIV, OF _ _ _ pass])
    show "resolves (streamEnvironment L) (functionEnvironment L) (localStreamIds L) n' s s'"
      if "traverseStreamExpr n (streamEnvironment L) (functionEnvironment L) (localStreamIds L) n' s = Return s'"
      for n' s s' using that by (rule traverseStreamExpr_resolves)
    show "externalReferencedStreamIds s' \<subseteq> ?E"
      if "externalReferencedStreamIds s \<subseteq> ?E"
        and "resolves (streamEnvironment L) (functionEnvironment L) (localStreamIds L) n' s s'"
      for n' s s' using resolves_external [OF that(2)] that(1) by blast
  qed (simp_all add: initialState_def)
  moreover have "?E = {}"
  proof -
    have "t \<in> localStreamIds L" if "env_has (streamEnvironment L) t" for t
    proof -
      from that inv have "smap L t \<noteq> None"
        by (simp add: env_has_empty_outer smap_def)
      with collected_dom [of L] inv show ?thesis by blast
    qed
    then show ?thesis by blast
  qed
  ultimately show ?thesis using ext by simp
qed

theorem root_compile_has_no_external_ids_witness:
  "(\<exists>cd ext. compileTreeDefinition 6 closureInner
        (Environment (Some (Environment None [])) [(''x'', Some (NumberLiteral 1 ''x'' 3)), (''y'', None)])
        (Environment (Some nativeEnv) []) = Return (cd, ext) \<and> ext = {''x''})
   \<and> (\<exists>cd. compileTreeDefinition 6 closureDef (Environment None []) (Environment (Some nativeEnv) [])
        = Return (cd, {}))"
proof -
  have inner: "compileTreeDefinition 6 closureInner
        (Environment (Some (Environment None [])) [(''x'', Some (NumberLiteral 1 ''x'' 3)), (''y'', None)])
        (Environment (Some nativeEnv) []) =
      Return (CompiledDefinition [''p''] [] []
        [AppSpec [''z''] ''app2'' ''add'' [''p'', ''x''] []] [] [Some ''z''], {''x''})"
    by code_simp
  have main: "compileTreeDefinition 6 closureDef (Environment None []) (Environment (Some nativeEnv) []) =
      Return (CompiledDefinition [] [] [ConstStreamSpec ''x'' (VNumber 3)]
        [AppSpec [''y''] ''app1'' ''streamMap'' [''x''] [''f'']]
        [LocalFunctionDefinition ''f'' (CompiledDefinition [''p''] [] []
           [AppSpec [''z''] ''app2'' ''add'' [''p'', ''x''] []] [] [Some ''z''])]
        [Some ''y''], {})"
    by code_simp
  then obtain cd ext where run: "compileTreeDefinition 6 closureDef (Environment None [])
      (Environment (Some nativeEnv) []) = Return (cd, ext)"
    by blast
  from root_compile_has_no_external_ids [OF run] run inner show ?thesis by blast
qed

section \<open>Each node emits at most one spec\<close>

lemma snodes_closed:
  "N \<in> snodes n \<Longrightarrow> snodes N \<subseteq> snodes n"
  and snodesAll_closed:
  "N \<in> snodesAll ns \<Longrightarrow> snodes N \<subseteq> snodesAll ns"
  by (induction n and ns rule: snodes_snodesAll.induct) auto

lemma snodesAll_members: "set ns \<subseteq> snodesAll ns"
  using snodes_self by (induction ns) auto

lemma bodyNodes_closed: "N \<in> bodyNodes body \<Longrightarrow> snodes N \<subseteq> bodyNodes body"
proof (induction body rule: bodyNodes.induct)
  case 1
  then show ?case by simp
next
  case (2 n rest)
  then show ?case using snodes_closed [of N n] by auto
next
  case (3 idx n rest)
  then show ?case using snodes_closed [of N n] by auto
next
  case (4 f rest)
  then show ?case by auto
qed

lemma bodyNodes_sargs:
  assumes "Application r aid outs func sargs fargs \<in> bodyNodes body"
  shows "set sargs \<subseteq> bodyNodes body"
  using bodyNodes_closed [OF assms] snodesAll_members [of sargs] by auto

lemma env_get_local:
  "map_of (local_frame e) k = Some v \<Longrightarrow> env_get e k = Some v"
  by (induction e k rule: env_get.induct) simp_all

lemma collected_scope:
  assumes "collected L (bodyNodes body) F"
  shows "scope (streamEnvironment L) (localStreamIds L) (bodyNodes body)"
  unfolding scope_def
proof (intro conjI allI impI ballI)
  fix r aid outs func sargs fargs
  assume "Application r aid outs func sargs fargs \<in> bodyNodes body"
  then show "set sargs \<subseteq> bodyNodes body" by (rule bodyNodes_sargs)
next
  fix t T assume t: "t \<in> localStreamIds L" and get: "env_get (streamEnvironment L) t = Some (Some T)"
  from t collected_dom [OF assms] obtain v where v: "smap L t = Some v" by blast
  then have "env_get (streamEnvironment L) t = Some v" by (simp add: smap_def env_get_local)
  with get v have "smap L t = Some (Some T)" by simp
  from collected_bound [OF assms this] show "T \<in> bodyNodes body" by simp
next
  fix M x assume "M \<in> bodyNodes body" and "x \<in> definedIds M"
  from collected_defines [OF assms this] have b: "smap L x = Some (Some M)" .
  with collected_dom [OF assms] show "x \<in> localStreamIds L" by blast
  from b show "env_get (streamEnvironment L) x = Some (Some M)" by (simp add: smap_def env_get_local)
qed

lemma literal_not_application: "isLiteral n \<Longrightarrow> \<not> isApplication n"
  by (cases n) simp_all

lemma emitted_marks:
  assumes "emitted U st nodes" and "constStreams st' = constStreams st" and "apps st' = apps st"
    and "permanentMarked st \<subseteq> permanentMarked st'"
  shows "emitted U st' nodes"
  using assms unfolding emitted_def by auto

lemma emitted_literal:
  assumes "emitted U st nodes" and "n \<in> U" and "isLiteral n" and "oid n \<notin> permanentMarked st"
    and "constStreams st' = constStreams st @ [constSpecOf n]" and "apps st' = apps st"
    and "permanentMarked st' = insert (oid n) (permanentMarked st)"
  shows "emitted U st' (nodes @ [n])"
  using assms literal_not_application [of n] unfolding emitted_def by auto

lemma emitted_application:
  assumes "emitted U st nodes" and "n \<in> U" and "isApplication n" and "oid n \<notin> permanentMarked st"
    and "constStreams st' = constStreams st" and "apps st' = apps st @ [appSpecOf n]"
    and "permanentMarked st' = insert (oid n) (permanentMarked st)"
  shows "emitted U st' (nodes @ [n])"
  using assms literal_not_application [of n] unfolding emitted_def by auto

lemma resolves_emitted:
  assumes sc: "scope senv lsids U"
  shows "resolves senv fenv lsids node st st' \<Longrightarrow> node \<in> U \<Longrightarrow> \<exists>nodes. emitted U st nodes
           \<Longrightarrow> \<exists>nodes. emitted U st' nodes"
    and "resolvesAll senv fenv lsids ns st st' \<Longrightarrow> set ns \<subseteq> U \<Longrightarrow> \<exists>nodes. emitted U st nodes
           \<Longrightarrow> \<exists>nodes. emitted U st' nodes"
proof (induction rule: resolves_resolvesAll.inducts)
  case (Marked node st)
  then show ?case by simp
next
  case (Literal node st)
  then obtain nodes where e: "emitted U st nodes" and mem: "node \<in> U"
    and lit: "isLiteral node" and fresh: "oid node \<notin> permanentMarked st" by blast
  have "emitted U (st\<lparr>constStreams := constStreams st @ [constSpecOf node],
      permanentMarked := insert (oid node) (permanentMarked st)\<rparr>) (nodes @ [node])"
    by (rule emitted_literal [OF e mem lit fresh]) simp_all
  then show ?case ..
next
  case (Param r st t)
  then obtain nodes where e: "emitted U st nodes" by blast
  have "emitted U (st\<lparr>permanentMarked := insert r (permanentMarked st)\<rparr>) nodes"
    by (rule emitted_marks [OF e]) auto
  then show ?case ..
next
  case (Local r st t target st1)
  then have t: "t \<in> lsids" and get: "env_get senv t = Some (Some target)" by blast+
  with sc have "target \<in> U" unfolding scope_def by blast
  moreover from Local.prems obtain nodes where e: "emitted U st nodes" by blast
  have "emitted U (st\<lparr>temporaryMarked := insert r (temporaryMarked st)\<rparr>) nodes"
    by (rule emitted_marks [OF e]) simp_all
  ultimately obtain nodes1 where e1: "emitted U st1 nodes1" using Local.IH by blast
  have "emitted U (st1\<lparr>temporaryMarked := temporaryMarked st1 - {r},
      permanentMarked := insert r (permanentMarked st1)\<rparr>) nodes1"
    by (rule emitted_marks [OF e1]) auto
  then show ?case ..
next
  case (External r st t)
  then obtain nodes where e: "emitted U st nodes" by blast
  have "emitted U (st\<lparr>externalReferencedStreamIds := insert t (externalReferencedStreamIds st),
      permanentMarked := insert r (permanentMarked st)\<rparr>) nodes"
    by (rule emitted_marks [OF e]) auto
  then show ?case ..
next
  case (Applied r st func sargs st1 fargs aid outs)
  let ?N = "Application r aid outs func sargs fargs"
  from Applied have mem: "?N \<in> U" and unmarked: "r \<notin> permanentMarked st"
    and run: "resolvesAll senv fenv lsids sargs (st\<lparr>temporaryMarked := insert r (temporaryMarked st)\<rparr>) st1"
    by blast+
  from sc mem have args: "set sargs \<subseteq> U" unfolding scope_def by blast
  from Applied.prems obtain nodes where e: "emitted U st nodes" by blast
  have "emitted U (st\<lparr>temporaryMarked := insert r (temporaryMarked st)\<rparr>) nodes"
    by (rule emitted_marks [OF e]) simp_all
  with args obtain nodes1 where e1: "emitted U st1 nodes1" using Applied.IH by blast
  from resolvesAll_marks [OF run] unmarked
  have fresh: "oid ?N \<notin> permanentMarked st1" by auto
  have "emitted U (st1\<lparr>temporaryMarked := temporaryMarked st1 - {r},
      apps := apps st1 @ [appSpecOf ?N],
      permanentMarked := insert r (permanentMarked st1)\<rparr>) (nodes1 @ [?N])"
    by (rule emitted_application [OF e1 mem _ fresh]) simp_all
  then show ?case ..
next
  case (NoArgs st)
  then show ?case by simp
next
  case (MoreArgs sarg st st1 sargs st2)
  then show ?case by simp
qed

text \<open>
  C7.  The specs of a compiled definition come from pairwise different node objects of the
  scope: there is a list of stream nodes of the definition's scope, no object twice, whose
  literals give exactly the constant-stream specs and whose applications give exactly the
  application specs, one spec each, in the emitted order.  So a node contributes at most one
  spec, however often it is reached.
\<close>

theorem node_emits_at_most_one_spec:
  assumes "compileTreeDefinition fuel definition osenv ofenv = Return (cd, ext)"
  shows "\<exists>nodes. distinct (map oid nodes) \<and> set nodes \<subseteq> scopeNodes definition
           \<and> CompiledDefinition.constStreams cd = map constSpecOf (filter isLiteral nodes)
           \<and> CompiledDefinition.apps cd = map appSpecOf (filter isApplication nodes)"
proof -
  obtain f sparams fparams body where d: "definition = TreeFunctionDefinitionNode f sparams fparams body"
    by (cases "definition")
  from assms [unfolded d] obtain n L lds st where
    coll: "collectLocals (TreeFunctionDefinitionNode f sparams fparams body) osenv ofenv = Return L"
    and pass: "bodyPass (traverseStreamExpr n (streamEnvironment L) (functionEnvironment L) (localStreamIds L))
           body initialState = Return st"
    and cd: "cd = CompiledDefinition sparams fparams (constStreams st) (apps st) lds (yieldIds st)"
    by (rule compileTreeDefinition_Return)
  from collectLocals_collected [OF coll] have "collected L (bodyNodes body) (bodyFunctions body)" by simp
  then have sc: "scope (streamEnvironment L) (localStreamIds L) (bodyNodes body)"
    by (rule collected_scope)
  have "\<exists>nodes. emitted (bodyNodes body) st nodes"
  proof (rule bodyPass_preserves [where P = "\<lambda>st. \<exists>nodes. emitted (bodyNodes body) st nodes"
        and U = "bodyNodes body", OF _ _ _ pass])
    show "resolves (streamEnvironment L) (functionEnvironment L) (localStreamIds L) n' s s'"
      if "traverseStreamExpr n (streamEnvironment L) (functionEnvironment L) (localStreamIds L) n' s = Return s'"
      for n' s s' using that by (rule traverseStreamExpr_resolves)
    show "\<exists>nodes. emitted (bodyNodes body) s' nodes"
      if "n' \<in> bodyNodes body" and "\<exists>nodes. emitted (bodyNodes body) s nodes"
        and "resolves (streamEnvironment L) (functionEnvironment L) (localStreamIds L) n' s s'"
      for n' s s' using resolves_emitted(1) [OF sc that(3,1,2)] .
    show "\<exists>nodes. emitted (bodyNodes body) (s\<lparr>yieldIds := ys\<rparr>) nodes"
      if "\<exists>nodes. emitted (bodyNodes body) s nodes" for s ys
      using that unfolding emitted_def by simp
    show "\<exists>nodes. emitted (bodyNodes body) initialState nodes"
      unfolding emitted_def initialState_def by (rule exI [of _ "[]"]) simp
  qed simp
  then obtain nodes where "emitted (bodyNodes body) st nodes" ..
  with cd d show ?thesis unfolding emitted_def by auto
qed

theorem node_emits_at_most_one_spec_witness:
  "compileTreeDefinition 6 sharedDef (Environment None []) (Environment (Some nativeEnv) []) =
       Return (CompiledDefinition [] [] [ConstStreamSpec ''x'' (VNumber 3)]
         [AppSpec [''r'', ''q''] ''app1'' ''add'' [''x'', ''x''] [],
          AppSpec [''c''] ''app2'' ''cos'' [''r''] []] [] [Some ''c'', Some ''q''], {})
   \<and> (\<exists>nodes. distinct (map oid nodes) \<and> set nodes \<subseteq> scopeNodes sharedDef
         \<and> [ConstStreamSpec ''x'' (VNumber 3)] = map constSpecOf (filter isLiteral nodes)
         \<and> [AppSpec [''r'', ''q''] ''app1'' ''add'' [''x'', ''x''] [],
             AppSpec [''c''] ''app2'' ''cos'' [''r''] []] = map appSpecOf (filter isApplication nodes))"
proof -
  have run: "compileTreeDefinition 6 sharedDef (Environment None []) (Environment (Some nativeEnv) []) =
       Return (CompiledDefinition [] [] [ConstStreamSpec ''x'' (VNumber 3)]
         [AppSpec [''r'', ''q''] ''app1'' ''add'' [''x'', ''x''] [],
          AppSpec [''c''] ''app2'' ''cos'' [''r''] []] [] [Some ''c'', Some ''q''], {})"
    by code_simp
  from node_emits_at_most_one_spec [OF run] have
    "\<exists>nodes. distinct (map oid nodes) \<and> set nodes \<subseteq> scopeNodes sharedDef
         \<and> [ConstStreamSpec ''x'' (VNumber 3)] = map constSpecOf (filter isLiteral nodes)
         \<and> [AppSpec [''r'', ''q''] ''app1'' ''add'' [''x'', ''x''] [],
             AppSpec [''c''] ''app2'' ''cos'' [''r''] []] = map appSpecOf (filter isApplication nodes)"
    by (simp only: CompiledDefinition.sel)
  with run show ?thesis by (intro conjI)
qed

section \<open>The application list is in dependency order\<close>

lemma topologicalD:
  "topological ids xs \<Longrightarrow> i < length xs \<Longrightarrow> s \<in> set (sargIds (xs ! i)) \<Longrightarrow> s \<in> ids
     \<Longrightarrow> \<exists>j < i. s \<in> set (sids (xs ! j))"
  unfolding topological_def by blast

lemma topological_snoc:
  assumes "topological ids xs"
    and "\<forall>s \<in> set (sargIds a). s \<in> ids \<longrightarrow> (\<exists>b \<in> set xs. s \<in> set (sids b))"
  shows "topological ids (xs @ [a])"
  unfolding topological_def
proof (intro allI impI ballI)
  fix i s assume i: "i < length (xs @ [a])" and s: "s \<in> set (sargIds ((xs @ [a]) ! i))" "s \<in> ids"
  show "\<exists>j < i. s \<in> set (sids ((xs @ [a]) ! j))"
  proof (cases "i < length xs")
    case True
    with s have "s \<in> set (sargIds (xs ! i))" by (simp add: nth_append)
    from topologicalD [OF assms(1) True this s(2)]
    obtain j where j: "j < i" "s \<in> set (sids (xs ! j))" by blast
    with True have "s \<in> set (sids ((xs @ [a]) ! j))" by (simp add: nth_append)
    with j(1) show ?thesis by blast
  next
    case False
    with i have il: "i = length xs" by simp
    with s have "s \<in> set (sargIds a)" by simp
    with assms(2) s(2) obtain b where b: "b \<in> set xs" "s \<in> set (sids b)" by blast
    from b(1) obtain j where j: "j < length xs" "xs ! j = b" by (auto simp: in_set_conv_nth)
    with b(2) have "s \<in> set (sids ((xs @ [a]) ! j))" by (simp add: nth_append)
    with j(1) il show ?thesis by blast
  qed
qed

lemma firstUnnamed_member: "firstUnnamed outs = Some s \<Longrightarrow> s \<in> set (map ApplicationOut.sid outs)"
  by (induction outs) (auto split: if_splits)

lemma appSpecOf_sids: "isApplication M \<Longrightarrow> set (sids (appSpecOf M)) = definedIds M"
  by (cases M) simp_all

lemma literal_defines: "isLiteral e \<Longrightarrow> streamExprReturnedId e = Some s \<Longrightarrow> s \<in> definedIds e"
  by (cases e) simp_all

lemma settled_mono:
  assumes "settled senv lsids st N" and "set (apps st) \<subseteq> set (apps st')"
    and "permanentMarked st \<subseteq> permanentMarked st'"
  shows "settled senv lsids st' N"
  using assms unfolding settled_def by blast

lemma ordered_same:
  assumes ord: "ordered senv lsids U st" and apps: "apps st' = apps st"
    and perm: "permanentMarked st' = permanentMarked st"
  shows "ordered senv lsids U st'"
  unfolding ordered_def
proof (intro conjI ballI impI)
  fix M assume M: "M \<in> U" "oid M \<in> permanentMarked st'"
  with ord perm have "settled senv lsids st M" unfolding ordered_def by simp
  then show "settled senv lsids st' M" by (rule settled_mono) (use apps perm in simp_all)
next
  from ord apps show "topological (appOutputs U) (apps st')" unfolding ordered_def by simp
next
  fix a assume "a \<in> set (apps st')"
  with ord apps show "\<exists>N \<in> U. isApplication N \<and> a = appSpecOf N" unfolding ordered_def by simp
qed

lemma ordered_mark:
  assumes ord: "ordered senv lsids U st" and apps: "apps st' = apps st"
    and perm: "permanentMarked st' = insert (oid N) (permanentMarked st)"
    and inj: "inj_on oid U" and mem: "N \<in> U" and new: "settled senv lsids st' N"
  shows "ordered senv lsids U st'"
  unfolding ordered_def
proof (intro conjI ballI impI)
  fix M assume M: "M \<in> U" "oid M \<in> permanentMarked st'"
  show "settled senv lsids st' M"
  proof (cases "oid M \<in> permanentMarked st")
    case True
    with ord M have "settled senv lsids st M" unfolding ordered_def by blast
    then show ?thesis by (rule settled_mono) (use apps perm in auto)
  next
    case False
    with M perm have "oid M = oid N" by simp
    with inj M mem have "M = N" by (auto dest: inj_onD)
    with new show ?thesis by simp
  qed
next
  from ord apps show "topological (appOutputs U) (apps st')" unfolding ordered_def by simp
next
  fix a assume "a \<in> set (apps st')"
  with ord apps show "\<exists>N \<in> U. isApplication N \<and> a = appSpecOf N" unfolding ordered_def by simp
qed

lemma ordered_push:
  assumes ord: "ordered senv lsids U st" and apps: "apps st' = apps st @ [appSpecOf N]"
    and perm: "permanentMarked st' = insert (oid N) (permanentMarked st)"
    and inj: "inj_on oid U" and mem: "N \<in> U" and app: "isApplication N"
    and avail: "\<forall>s \<in> set (sargIds (appSpecOf N)). s \<in> appOutputs U \<longrightarrow> (\<exists>b \<in> set (apps st). s \<in> set (sids b))"
  shows "ordered senv lsids U st'"
  unfolding ordered_def
proof (intro conjI ballI impI)
  fix M assume M: "M \<in> U" "oid M \<in> permanentMarked st'"
  show "settled senv lsids st' M"
  proof (cases "oid M \<in> permanentMarked st")
    case True
    with ord M have "settled senv lsids st M" unfolding ordered_def by blast
    then show ?thesis by (rule settled_mono) (use apps perm in auto)
  next
    case False
    with M perm have "oid M = oid N" by simp
    with inj M mem have "M = N" by (auto dest: inj_onD)
    with app apps show ?thesis unfolding settled_def by (cases N) simp_all
  qed
next
  from ord have "topological (appOutputs U) (apps st)" unfolding ordered_def by blast
  from topological_snoc [OF this avail] show "topological (appOutputs U) (apps st')"
    unfolding apps .
next
  fix a assume "a \<in> set (apps st')"
  with ord apps mem app show "\<exists>N \<in> U. isApplication N \<and> a = appSpecOf N"
    unfolding ordered_def by auto
qed

lemma argument_available:
  assumes sc: "scope senv lsids U" and ord: "ordered senv lsids U st"
    and mem: "e \<in> U" and marked: "oid e \<in> permanentMarked st"
    and ret: "\<not> falsy (streamExprReturnedId e)"
    and out: "the (streamExprReturnedId e) \<in> appOutputs U"
  shows "\<exists>b \<in> set (apps st). the (streamExprReturnedId e) \<in> set (sids b)"
proof -
  from ret obtain s where s: "streamExprReturnedId e = Some s" by (cases "streamExprReturnedId e") auto
  from out s obtain M where M: "M \<in> U" "isApplication M" "s \<in> definedIds M"
    unfolding appOutputs_def by auto
  from sc M have bound: "s \<in> lsids" "env_get senv s = Some (Some M)" unfolding scope_def by blast+
  from ord mem marked have se: "settled senv lsids st e" unfolding ordered_def by blast
  have "\<exists>b \<in> set (apps st). s \<in> set (sids b)"
  proof (cases "isLiteral e")
    case True
    from literal_defines [OF True s] sc mem have "env_get senv s = Some (Some e)"
      unfolding scope_def by blast
    with bound have "e = M" by simp
    with True M(2) literal_not_application show ?thesis by blast
  next
    case False
    show ?thesis
    proof (cases e)
      case (StreamReference r t)
      with s have "t = s" by simp
      with se StreamReference bound have "oid M \<in> permanentMarked st" unfolding settled_def by blast
      with ord M have "settled senv lsids st M" unfolding ordered_def by blast
      with M have "appSpecOf M \<in> set (apps st)" unfolding settled_def by blast
      moreover from M have "s \<in> set (sids (appSpecOf M))" by (simp add: appSpecOf_sids)
      ultimately show ?thesis by blast
    next
      case (Application r aid outs func sargs fargs)
      with se have "appSpecOf e \<in> set (apps st)" unfolding settled_def by simp
      moreover from Application s have "s \<in> set (sids (appSpecOf e))"
        using firstUnnamed_member [of outs s] by simp
      ultimately show ?thesis by blast
    qed (use False in simp_all)
  qed
  with s show ?thesis by simp
qed

lemma resolves_ordered:
  assumes sc: "scope senv lsids U" and inj: "inj_on oid U"
  shows "resolves senv fenv lsids node st st' \<Longrightarrow> node \<in> U \<Longrightarrow> ordered senv lsids U st
           \<Longrightarrow> ordered senv lsids U st'"
    and "resolvesAll senv fenv lsids ns st st' \<Longrightarrow> set ns \<subseteq> U \<Longrightarrow> ordered senv lsids U st
           \<Longrightarrow> ordered senv lsids U st'"
proof (induction rule: resolves_resolvesAll.inducts)
  case (Marked node st)
  then show ?case by simp
next
  case (Literal node st)
  then have ord: "ordered senv lsids U st" and mem: "node \<in> U" and lit: "isLiteral node" by blast+
  have new: "settled senv lsids (st\<lparr>constStreams := constStreams st @ [constSpecOf node],
      permanentMarked := insert (oid node) (permanentMarked st)\<rparr>) node"
    using lit unfolding settled_def by (cases node) simp_all
  show ?case by (rule ordered_mark [where st = st and N = node, OF ord _ _ inj mem new]) simp_all
next
  case (Param r st t)
  then have ord: "ordered senv lsids U st" and mem: "StreamReference r t \<in> U"
    and get: "env_get senv t = Some None" by blast+
  have new: "settled senv lsids (st\<lparr>permanentMarked := insert r (permanentMarked st)\<rparr>) (StreamReference r t)"
    using get unfolding settled_def by simp
  show ?case
    by (rule ordered_mark [where st = st and N = "StreamReference r t", OF ord _ _ inj mem new]) simp_all
next
  case (Local r st t target st1)
  then have ord: "ordered senv lsids U st" and mem: "StreamReference r t \<in> U"
    and t: "t \<in> lsids" and get: "env_get senv t = Some (Some target)"
    and run: "resolves senv fenv lsids target (st\<lparr>temporaryMarked := insert r (temporaryMarked st)\<rparr>) st1"
    by blast+
  from sc t get have tm: "target \<in> U" unfolding scope_def by blast
  have "ordered senv lsids U (st\<lparr>temporaryMarked := insert r (temporaryMarked st)\<rparr>)"
    by (rule ordered_same [OF ord]) simp_all
  with tm Local.IH have ord1: "ordered senv lsids U st1" by blast
  from resolves_marks [OF run] have "oid target \<in> permanentMarked st1" by simp
  then have new: "settled senv lsids (st1\<lparr>temporaryMarked := temporaryMarked st1 - {r},
      permanentMarked := insert r (permanentMarked st1)\<rparr>) (StreamReference r t)"
    using get unfolding settled_def by simp
  show ?case
    by (rule ordered_mark [where st = st1 and N = "StreamReference r t", OF ord1 _ _ inj mem new]) simp_all
next
  case (External r st t)
  then have ord: "ordered senv lsids U st" and mem: "StreamReference r t \<in> U"
    and t: "t \<notin> lsids" by blast+
  have new: "settled senv lsids (st\<lparr>externalReferencedStreamIds := insert t (externalReferencedStreamIds st),
      permanentMarked := insert r (permanentMarked st)\<rparr>) (StreamReference r t)"
    using t unfolding settled_def by simp
  show ?case
    by (rule ordered_mark [where st = st and N = "StreamReference r t", OF ord _ _ inj mem new]) simp_all
next
  case (Applied r st func sargs st1 fargs aid outs)
  let ?N = "Application r aid outs func sargs fargs"
  from Applied have ord: "ordered senv lsids U st" and mem: "?N \<in> U"
    and run: "resolvesAll senv fenv lsids sargs (st\<lparr>temporaryMarked := insert r (temporaryMarked st)\<rparr>) st1"
    and rets: "\<forall>sarg \<in> set sargs. \<not> falsy (streamExprReturnedId sarg)"
    by blast+
  from sc mem have args: "set sargs \<subseteq> U" unfolding scope_def by blast
  have "ordered senv lsids U (st\<lparr>temporaryMarked := insert r (temporaryMarked st)\<rparr>)"
    by (rule ordered_same [OF ord]) simp_all
  with args Applied.IH have ord1: "ordered senv lsids U st1" by blast
  from resolvesAll_marks [OF run] have marked: "oid ` set sargs \<subseteq> permanentMarked st1" by simp
  have avail: "\<forall>s \<in> set (sargIds (appSpecOf ?N)). s \<in> appOutputs U \<longrightarrow>
      (\<exists>b \<in> set (apps st1). s \<in> set (sids b))"
  proof (intro ballI impI)
    fix s assume "s \<in> set (sargIds (appSpecOf ?N))" and out: "s \<in> appOutputs U"
    then obtain e where e: "e \<in> set sargs" "s = the (streamExprReturnedId e)" by auto
    with args marked rets have "e \<in> U" "oid e \<in> permanentMarked st1" "\<not> falsy (streamExprReturnedId e)"
      by auto
    from argument_available [OF sc ord1 this] out e show "\<exists>b \<in> set (apps st1). s \<in> set (sids b)"
      by simp
  qed
  show ?case
    by (rule ordered_push [where st = st1 and N = ?N, OF ord1 _ _ inj mem _ avail]) simp_all
next
  case (NoArgs st)
  then show ?case by simp
next
  case (MoreArgs sarg st st1 sargs st2)
  then show ?case by simp
qed

text \<open>
  C1.  In the application list of a compiled definition, whose scope has one object per
  node reference, every stream id that the spec at position \<open>i\<close> consumes and that is an
  output of another spec of the list is an output of a spec at a position strictly below
  \<open>i\<close>.
\<close>

theorem apps_in_dependency_order:
  assumes "compileTreeDefinition fuel definition osenv ofenv = Return (cd, ext)"
    and "inj_on oid (scopeNodes definition)"
  shows "\<forall>i < length (CompiledDefinition.apps cd).
           \<forall>s \<in> set (sargIds (CompiledDefinition.apps cd ! i)).
             (\<exists>j < length (CompiledDefinition.apps cd). j \<noteq> i
                 \<and> s \<in> set (sids (CompiledDefinition.apps cd ! j)))
             \<longrightarrow> (\<exists>j < i. s \<in> set (sids (CompiledDefinition.apps cd ! j)))"
proof -
  obtain f sparams fparams body where d: "definition = TreeFunctionDefinitionNode f sparams fparams body"
    by (cases "definition")
  from assms(1) [unfolded d] obtain n L lds st where
    coll: "collectLocals (TreeFunctionDefinitionNode f sparams fparams body) osenv ofenv = Return L"
    and pass: "bodyPass (traverseStreamExpr n (streamEnvironment L) (functionEnvironment L) (localStreamIds L))
           body initialState = Return st"
    and cd: "cd = CompiledDefinition sparams fparams (constStreams st) (apps st) lds (yieldIds st)"
    by (rule compileTreeDefinition_Return)
  let ?U = "bodyNodes body"
  from assms(2) d have inj: "inj_on oid ?U" by simp
  from collectLocals_collected [OF coll] have "collected L ?U (bodyFunctions body)" by simp
  then have sc: "scope (streamEnvironment L) (localStreamIds L) ?U"
    by (rule collected_scope)
  have ord: "ordered (streamEnvironment L) (localStreamIds L) ?U st"
  proof (rule bodyPass_preserves [where P = "ordered (streamEnvironment L) (localStreamIds L) ?U"
        and U = ?U, OF _ _ _ pass])
    show "resolves (streamEnvironment L) (functionEnvironment L) (localStreamIds L) n' s s'"
      if "traverseStreamExpr n (streamEnvironment L) (functionEnvironment L) (localStreamIds L) n' s = Return s'"
      for n' s s' using that by (rule traverseStreamExpr_resolves)
    show "ordered (streamEnvironment L) (localStreamIds L) ?U s'"
      if "n' \<in> ?U" and "ordered (streamEnvironment L) (localStreamIds L) ?U s"
        and "resolves (streamEnvironment L) (functionEnvironment L) (localStreamIds L) n' s s'"
      for n' s s' using resolves_ordered(1) [OF sc inj that(3,1,2)] .
    show "ordered (streamEnvironment L) (localStreamIds L) ?U (s\<lparr>yieldIds := ys\<rparr>)"
      if "ordered (streamEnvironment L) (localStreamIds L) ?U s" for s ys
      by (rule ordered_same [OF that]) simp_all
    show "ordered (streamEnvironment L) (localStreamIds L) ?U initialState"
      unfolding ordered_def topological_def initialState_def by simp
  qed simp
  have apps: "CompiledDefinition.apps cd = apps st" using cd by simp
  show ?thesis
    unfolding apps
  proof (intro allI impI ballI)
    fix i s assume i: "i < length (apps st)" and s: "s \<in> set (sargIds (apps st ! i))"
      and other: "\<exists>j < length (apps st). j \<noteq> i \<and> s \<in> set (sids (apps st ! j))"
    then obtain j where j: "j < length (apps st)" "s \<in> set (sids (apps st ! j))" by blast
    from j(1) have "apps st ! j \<in> set (apps st)" by simp
    with ord obtain N where N: "N \<in> ?U" "isApplication N" "apps st ! j = appSpecOf N"
      unfolding ordered_def by blast
    with j(2) have "s \<in> appOutputs ?U" unfolding appOutputs_def using appSpecOf_sids [of N] by auto
    moreover from ord have "topological (appOutputs ?U) (apps st)" unfolding ordered_def by blast
    ultimately show "\<exists>j < i. s \<in> set (sids (apps st ! j))"
      using topologicalD i s by blast
  qed
qed

theorem apps_in_dependency_order_witness:
  "inj_on oid (scopeNodes sharedDef)
   \<and> compileTreeDefinition 6 sharedDef (Environment None []) (Environment (Some nativeEnv) []) =
       Return (CompiledDefinition [] [] [ConstStreamSpec ''x'' (VNumber 3)]
         [AppSpec [''r'', ''q''] ''app1'' ''add'' [''x'', ''x''] [],
          AppSpec [''c''] ''app2'' ''cos'' [''r''] []] [] [Some ''c'', Some ''q''], {})
   \<and> ''r'' \<in> set (sargIds ([AppSpec [''r'', ''q''] ''app1'' ''add'' [''x'', ''x''] [],
                              AppSpec [''c''] ''app2'' ''cos'' [''r''] []] ! 1))
   \<and> ''r'' \<in> set (sids ([AppSpec [''r'', ''q''] ''app1'' ''add'' [''x'', ''x''] [],
                           AppSpec [''c''] ''app2'' ''cos'' [''r''] []] ! 0))"
proof -
  let ?apps = "[AppSpec [''r'', ''q''] ''app1'' ''add'' [''x'', ''x''] [],
                AppSpec [''c''] ''app2'' ''cos'' [''r''] []]"
  have inj: "inj_on oid (scopeNodes sharedDef)"
    by (simp add: sharedDef_def)
  have run: "compileTreeDefinition 6 sharedDef (Environment None []) (Environment (Some nativeEnv) []) =
       Return (CompiledDefinition [] [] [ConstStreamSpec ''x'' (VNumber 3)] ?apps []
         [Some ''c'', Some ''q''], {})"
    by code_simp
  from apps_in_dependency_order [OF run inj] have all:
    "\<forall>i < length ?apps. \<forall>s \<in> set (sargIds (?apps ! i)).
        (\<exists>j < length ?apps. j \<noteq> i \<and> s \<in> set (sids (?apps ! j)))
        \<longrightarrow> (\<exists>j < i. s \<in> set (sids (?apps ! j)))"
    by (simp only: CompiledDefinition.sel)
  have pos: "1 < length ?apps" and consumed: "''r'' \<in> set (sargIds (?apps ! 1))" by simp_all
  have produced: "\<exists>j < length ?apps. j \<noteq> 1 \<and> ''r'' \<in> set (sids (?apps ! j))"
    by (rule exI [of _ 0]) simp
  from all pos consumed produced have "\<exists>j < 1. ''r'' \<in> set (sids (?apps ! j))" by blast
  then have earlier: "''r'' \<in> set (sids (?apps ! 0))" by simp
  from inj run consumed earlier show ?thesis by (intro conjI)
qed

section \<open>Termination\<close>

subsection \<open>The collector uses no fuel\<close>

lemma env_set_fuel: "env_set e k v \<noteq> OutOfFuel"
  by (cases e) simp

lemma registerStream_fuel: "registerStream s v L \<noteq> OutOfFuel"
  by (simp add: registerStream_def rbind_OutOfFuel_iff env_set_fuel)

lemma registerStreams_fuel: "registerStreams ss v L \<noteq> OutOfFuel"
  by (induction ss arbitrary: L) (simp_all add: rbind_OutOfFuel_iff registerStream_fuel)

lemma visitFunctionExpr_fuel: "visitFunctionExpr f L \<noteq> OutOfFuel"
  by (simp add: registerFunction_def rbind_OutOfFuel_iff env_set_fuel)

lemma visitFunctionExprs_fuel: "visitFunctionExprs fs L \<noteq> OutOfFuel"
  by (induction fs arbitrary: L) (simp_all add: rbind_OutOfFuel_iff visitFunctionExpr_fuel del: visitFunctionExpr.simps)

lemma visitStreamExpr_fuel: "visitStreamExpr n L \<noteq> OutOfFuel"
  and visitStreamExprs_fuel: "visitStreamExprs ns L \<noteq> OutOfFuel"
proof (induction n L and ns L rule: visitStreamExpr_visitStreamExprs.induct)
  case (6 r aid outs func sargs fargs L)
  then show ?case
    by (simp add: rbind_OutOfFuel_iff registerStreams_fuel visitFunctionExpr_fuel
        visitFunctionExprs_fuel del: visitFunctionExpr.simps)
next
  case (8 n ns L)
  then show ?case by (simp add: rbind_OutOfFuel_iff)
qed (simp_all add: registerStream_fuel)

lemma visitBodyExprs_fuel: "visitBodyExprs body L \<noteq> OutOfFuel"
proof (induction body arbitrary: L)
  case Nil
  then show ?case by simp
next
  case (Cons b body)
  then show ?case
    by (cases b) (simp_all add: rbind_OutOfFuel_iff visitStreamExpr_fuel visitFunctionExpr_fuel
        del: visitFunctionExpr.simps)
qed

lemma collectLocals_fuel: "collectLocals d osenv ofenv \<noteq> OutOfFuel"
  by (cases d) (simp add: collectLocals_def rbind_OutOfFuel_iff registerStreams_fuel visitBodyExprs_fuel)

subsection \<open>Enough fuel for the traversal\<close>

lemma resolveFargs_fuel: "resolveFargs fenv fargs acc \<noteq> OutOfFuel"
  by (induction fargs arbitrary: acc) (simp_all split: option.splits)

lemma traverseArgs_fuel:
  assumes run: "\<And>e s. e \<in> set sargs \<Longrightarrow> temporaryMarked s = T \<Longrightarrow> P \<subseteq> permanentMarked s
                  \<Longrightarrow> trav e s \<noteq> OutOfFuel"
    and frame: "\<And>e s s'. trav e s = Return s' \<Longrightarrow>
                  temporaryMarked s' = temporaryMarked s \<and> permanentMarked s \<subseteq> permanentMarked s'"
  shows "temporaryMarked st = T \<Longrightarrow> P \<subseteq> permanentMarked st
           \<Longrightarrow> traverseArgs trav sargs acc st \<noteq> OutOfFuel"
  using run
proof (induction sargs arbitrary: acc st)
  case Nil
  then show ?case by simp
next
  case (Cons e sargs)
  have first: "trav e st \<noteq> OutOfFuel" using Cons.prems by simp
  show ?case
  proof (cases "trav e st")
    case OutOfFuel
    with first show ?thesis by simp
  next
    case (Throw err)
    then show ?thesis by simp
  next
    case (Return st1)
    from frame [OF Return] Cons.prems(1,2)
    have "temporaryMarked st1 = T" "P \<subseteq> permanentMarked st1" by auto
    from Cons.IH [OF this] Cons.prems(3) Return show ?thesis by simp
  qed
qed

lemma card_unmarked_less:
  assumes "finite U" and "node \<in> U" and "oid node \<notin> T" and "oid node \<notin> P" and "P \<subseteq> P'"
  shows "card (oid ` U - (insert (oid node) T \<union> P')) < card (oid ` U - (T \<union> P))"
proof (rule psubset_card_mono)
  from assms(1) show "finite (oid ` U - (T \<union> P))" by simp
  from assms(2-5) show "oid ` U - (insert (oid node) T \<union> P') \<subset> oid ` U - (T \<union> P)" by auto
qed

lemma card_unmarked_mono:
  assumes "finite U" and "P \<subseteq> P'"
  shows "card (oid ` U - (T \<union> P')) \<le> card (oid ` U - (T \<union> P))"
  by (rule card_mono) (use assms in auto)

lemma traverseStreamExpr_frame:
  "traverseStreamExpr fuel senv fenv lsids e s = Return s' \<Longrightarrow>
     temporaryMarked s' = temporaryMarked s \<and> permanentMarked s \<subseteq> permanentMarked s'"
  using resolves_marks [OF traverseStreamExpr_resolves] by blast

lemma traverseStreamExpr_fuel:
  assumes sc: "scope senv lsids U" and fin: "finite U"
  shows "node \<in> U \<Longrightarrow> card (oid ` U - (temporaryMarked st \<union> permanentMarked st)) < fuel
           \<Longrightarrow> traverseStreamExpr fuel senv fenv lsids node st \<noteq> OutOfFuel"
proof (induction fuel arbitrary: node st)
  case 0
  then show ?case by simp
next
  case (Suc fuel)
  let ?trav = "traverseStreamExpr fuel senv fenv lsids"
  show ?case
  proof (cases "oid node \<in> permanentMarked st \<or> oid node \<in> temporaryMarked st")
    case True
    then show ?thesis by auto
  next
    case False
    then have np: "oid node \<notin> permanentMarked st" and nt: "oid node \<notin> temporaryMarked st" by simp_all
    have less: "card (oid ` U - (insert (oid node) (temporaryMarked st) \<union> P')) < fuel"
      if "permanentMarked st \<subseteq> P'" for P'
      using card_unmarked_less [OF fin Suc.prems(1) nt np that] Suc.prems(2) by simp
    have "traverseCase ?trav senv fenv lsids node st \<noteq> OutOfFuel"
    proof (cases node)
      case (StreamReference r t)
      show ?thesis
      proof (cases "t \<in> lsids")
        case True
        show ?thesis
        proof (cases "env_get senv t")
          case None
          with True StreamReference show ?thesis by simp
        next
          case (Some v)
          show ?thesis
          proof (cases v)
            case None
            with Some True StreamReference show ?thesis by simp
          next
            case (Some target)
            with sc True \<open>env_get senv t = Some v\<close> have "target \<in> U" unfolding scope_def by blast
            moreover have "card (oid ` U - (temporaryMarked (st\<lparr>temporaryMarked := insert r (temporaryMarked st)\<rparr>)
                \<union> permanentMarked (st\<lparr>temporaryMarked := insert r (temporaryMarked st)\<rparr>))) < fuel"
              using less [of "permanentMarked st"] StreamReference by simp
            ultimately have "?trav target (st\<lparr>temporaryMarked := insert r (temporaryMarked st)\<rparr>) \<noteq> OutOfFuel"
              by (rule Suc.IH)
            with Some \<open>env_get senv t = Some v\<close> True StreamReference show ?thesis
              by (simp add: rbind_OutOfFuel_iff)
          qed
        qed
      next
        case False
        with StreamReference show ?thesis by simp
      qed
    next
      case (Application r aid outs func sargs fargs)
      from sc Suc.prems(1) Application have args: "set sargs \<subseteq> U" unfolding scope_def by blast
      have "traverseArgs ?trav sargs [] (st\<lparr>temporaryMarked := insert r (temporaryMarked st)\<rparr>) \<noteq> OutOfFuel"
      proof (rule traverseArgs_fuel [where T = "insert r (temporaryMarked st)" and P = "permanentMarked st"])
        show "?trav e s \<noteq> OutOfFuel"
          if "e \<in> set sargs" and "temporaryMarked s = insert r (temporaryMarked st)"
            and "permanentMarked st \<subseteq> permanentMarked s" for e s
        proof (rule Suc.IH)
          from that(1) args show "e \<in> U" by blast
          from less [OF that(3)] that(2) Application
          show "card (oid ` U - (temporaryMarked s \<union> permanentMarked s)) < fuel" by simp
        qed
        show "temporaryMarked s' = temporaryMarked s \<and> permanentMarked s \<subseteq> permanentMarked s'"
          if "?trav e s = Return s'" for e s s'
          using that by (rule traverseStreamExpr_frame)
      qed simp_all
      with Application show ?thesis
        by (auto simp: rbind_OutOfFuel_iff resolveFargs_fuel split: option.splits)
    qed simp_all
    with np nt show ?thesis by (simp add: rbind_OutOfFuel_iff)
  qed
qed

lemma bodyPass_fuel:
  assumes run: "\<And>e s. e \<in> bodyNodes body \<Longrightarrow> temporaryMarked s = {} \<Longrightarrow> trav e s \<noteq> OutOfFuel"
    and frame: "\<And>e s s'. trav e s = Return s' \<Longrightarrow>
                  temporaryMarked s' = temporaryMarked s \<and> permanentMarked s \<subseteq> permanentMarked s'"
  shows "temporaryMarked st = {} \<Longrightarrow> bodyPass trav body st \<noteq> OutOfFuel"
  using run
proof (induction body arbitrary: st)
  case Nil
  then show ?case by simp
next
  case (Cons b body)
  show ?case
  proof (cases b)
    case (StreamExpression e)
    then have mem: "e \<in> bodyNodes (b # body)" using snodes_self [of e] by simp
    have rest: "\<And>e s. e \<in> bodyNodes body \<Longrightarrow> temporaryMarked s = {} \<Longrightarrow> trav e s \<noteq> OutOfFuel"
      using Cons.prems(2) StreamExpression by simp
    show ?thesis
    proof (cases "trav e st")
      case OutOfFuel
      with Cons.prems(2) [OF mem Cons.prems(1)] show ?thesis by simp
    next
      case (Throw err)
      with StreamExpression show ?thesis by simp
    next
      case (Return st1)
      from frame [OF Return] Cons.prems(1) have "temporaryMarked st1 = {}" by simp
      from Cons.IH [OF this rest] Return StreamExpression show ?thesis by simp
    qed
  next
    case (FunctionExpression f)
    then show ?thesis by simp
  next
    case (YieldExpression idx e)
    then have mem: "e \<in> bodyNodes (b # body)" using snodes_self [of e] by simp
    have rest: "\<And>e s. e \<in> bodyNodes body \<Longrightarrow> temporaryMarked s = {} \<Longrightarrow> trav e s \<noteq> OutOfFuel"
      using Cons.prems(2) YieldExpression by simp
    show ?thesis
    proof (cases "trav e st")
      case OutOfFuel
      with Cons.prems(2) [OF mem Cons.prems(1)] show ?thesis by simp
    next
      case (Throw err)
      with YieldExpression show ?thesis by simp
    next
      case (Return st1)
      from frame [OF Return] Cons.prems(1) have "temporaryMarked
          (st1\<lparr>yieldIds := setYield (yieldIds st1) idx (the (streamExprReturnedId e))\<rparr>) = {}" by simp
      from Cons.IH [OF this rest] Return YieldExpression show ?thesis by simp
    qed
  qed
qed

lemma snodes_finite: "finite (snodes n)" and snodesAll_finite: "finite (snodesAll ns)"
  by (induction n and ns rule: snodes_snodesAll.induct) simp_all

lemma bodyNodes_finite: "finite (bodyNodes body)"
  by (induction body rule: bodyNodes.induct) (simp_all add: snodes_finite)

subsection \<open>Enough fuel for the whole compilation\<close>

lemma compileLocalDefs_fuel:
  assumes "\<And>f td. f \<in> set fs \<Longrightarrow> env_get fenv f = Some (TreeFunctionDefinition td)
             \<Longrightarrow> compile td \<noteq> OutOfFuel"
  shows "compileLocalDefs compile fenv fs acc \<noteq> OutOfFuel"
  using assms
proof (induction fs arbitrary: acc)
  case Nil
  then show ?case by simp
next
  case (Cons f fs)
  have rest: "compileLocalDefs compile fenv fs acc' \<noteq> OutOfFuel" for acc'
    by (rule Cons.IH) (use Cons.prems in auto)
  show ?case
  proof (cases "env_get fenv f")
    case None
    then show ?thesis by simp
  next
    case (Some nd)
    show ?thesis
    proof (cases nd)
      case (TreeFunctionDefinition td)
      from Cons.prems [of f td] Some TreeFunctionDefinition have "compile td \<noteq> OutOfFuel" by simp
      with Some TreeFunctionDefinition rest show ?thesis
        by (auto simp: rbind_OutOfFuel_iff)
    qed (use Some rest in simp_all)
  qed
qed

lemma common_bound:
  assumes "\<forall>x \<in> set xs. \<exists>n::nat. \<forall>m \<ge> n. P x m"
  shows "\<exists>n. \<forall>m \<ge> n. \<forall>x \<in> set xs. P x m"
  using assms
proof (induction xs)
  case Nil
  then show ?case by simp
next
  case (Cons x xs)
  then obtain n1 n2 where n1: "\<forall>m \<ge> n1. P x m" and n2: "\<forall>m \<ge> n2. \<forall>x \<in> set xs. P x m"
    by auto
  have "\<forall>m \<ge> max n1 n2. \<forall>y \<in> set (x # xs). P y m"
    using n1 n2 by auto
  then show ?case ..
qed

lemma terminates_step:
  assumes locals: "\<And>td. TreeFunctionDefinition td \<in> bodyFunctions body \<Longrightarrow> terminates td"
  shows "terminates (TreeFunctionDefinitionNode f sparams fparams body)"
  unfolding terminates_def
proof (intro allI)
  fix osenv ofenv
  let ?d = "TreeFunctionDefinitionNode f sparams fparams body"
  show "\<exists>n. \<forall>fuel \<ge> n. compileTreeDefinition fuel ?d osenv ofenv \<noteq> OutOfFuel"
  proof (cases "collectLocals ?d osenv ofenv")
    case OutOfFuel
    then show ?thesis using collectLocals_fuel by blast
  next
    case (Throw err)
    have "\<forall>fuel \<ge> 1. compileTreeDefinition fuel ?d osenv ofenv \<noteq> OutOfFuel"
    proof (intro allI impI)
      fix fuel :: nat assume "1 \<le> fuel"
      then obtain k where "fuel = Suc k" by (cases fuel) simp_all
      with Throw show "compileTreeDefinition fuel ?d osenv ofenv \<noteq> OutOfFuel" by simp
    qed
    then show ?thesis ..
  next
    case (Return L)
    let ?senv = "streamEnvironment L" and ?fenv = "functionEnvironment L"
    let ?U = "bodyNodes body"
    from collectLocals_collected [OF Return] have inv: "collected L ?U (bodyFunctions body)" by simp
    then have sc: "scope ?senv (localStreamIds L) ?U" by (rule collected_scope)
    have "\<forall>g \<in> set (localFunctionIds L). \<exists>n. \<forall>m \<ge> n.
            (\<forall>td. env_get ?fenv g = Some (TreeFunctionDefinition td)
               \<longrightarrow> compileTreeDefinition m td ?senv ?fenv \<noteq> OutOfFuel)"
    proof
      fix g assume "g \<in> set (localFunctionIds L)"
      with collected_fdom [OF inv] obtain nd where nd: "fmap L g = Some nd" by blast
      then have get: "env_get ?fenv g = Some nd" by (simp add: fmap_def env_get_local)
      show "\<exists>n. \<forall>m \<ge> n. (\<forall>td. env_get ?fenv g = Some (TreeFunctionDefinition td)
               \<longrightarrow> compileTreeDefinition m td ?senv ?fenv \<noteq> OutOfFuel)"
      proof (cases nd)
        case (TreeFunctionDefinition td)
        with collected_fbound [OF inv nd] have "terminates td" using locals by simp
        then obtain n where "\<forall>m \<ge> n. compileTreeDefinition m td ?senv ?fenv \<noteq> OutOfFuel"
          unfolding terminates_def by blast
        with get TreeFunctionDefinition show ?thesis by auto
      qed (use get in simp_all)
    qed
    from common_bound [OF this] obtain n1 where n1:
      "\<forall>m \<ge> n1. \<forall>g \<in> set (localFunctionIds L). \<forall>td.
          env_get ?fenv g = Some (TreeFunctionDefinition td)
            \<longrightarrow> compileTreeDefinition m td ?senv ?fenv \<noteq> OutOfFuel" ..
    let ?n2 = "card (oid ` ?U)"
    have "\<forall>fuel \<ge> Suc (max n1 (Suc ?n2)). compileTreeDefinition fuel ?d osenv ofenv \<noteq> OutOfFuel"
    proof (intro allI impI)
      fix fuel assume "Suc (max n1 (Suc ?n2)) \<le> fuel"
      then obtain k where fuel: "fuel = Suc k" and k1: "n1 \<le> k" and k2: "?n2 < k"
        by (cases fuel) auto
      have loc: "compileLocalDefs (\<lambda>funcDef. compileTreeDefinition k funcDef ?senv ?fenv)
                   ?fenv (localFunctionIds L) [] \<noteq> OutOfFuel"
        by (rule compileLocalDefs_fuel) (use n1 k1 in blast)
      have pass: "bodyPass (traverseStreamExpr k ?senv ?fenv (localStreamIds L)) body initialState
                    \<noteq> OutOfFuel"
      proof (rule bodyPass_fuel)
        show "traverseStreamExpr k ?senv ?fenv (localStreamIds L) e s \<noteq> OutOfFuel"
          if "e \<in> ?U" and "temporaryMarked s = {}" for e s
        proof (rule traverseStreamExpr_fuel [OF sc bodyNodes_finite that(1)])
          have "card (oid ` ?U - (temporaryMarked s \<union> permanentMarked s)) \<le> ?n2"
            by (rule card_mono) (simp_all add: bodyNodes_finite)
          with k2 show "card (oid ` ?U - (temporaryMarked s \<union> permanentMarked s)) < k" by simp
        qed
        show "temporaryMarked s' = temporaryMarked s \<and> permanentMarked s \<subseteq> permanentMarked s'"
          if "traverseStreamExpr k ?senv ?fenv (localStreamIds L) e s = Return s'" for e s s'
          using that by (rule traverseStreamExpr_frame)
        show "temporaryMarked initialState = {}" by (simp add: initialState_def)
      qed
      from Return loc pass fuel show "compileTreeDefinition fuel ?d osenv ofenv \<noteq> OutOfFuel"
        by (auto simp: rbind_OutOfFuel_iff)
    qed
    then show ?thesis ..
  qed
qed

lemma fnodesAll_members: "fe \<in> fnodesAll ns \<Longrightarrow> \<exists>n \<in> set ns. fe \<in> fnodes n"
  by (induction ns) auto

lemma bodyFunctions_members:
  "fe \<in> bodyFunctions body \<Longrightarrow>
     (\<exists>n. (StreamExpression n \<in> set body \<or> (\<exists>idx. YieldExpression idx n \<in> set body)) \<and> fe \<in> fnodes n)
     \<or> (FunctionExpression fe \<in> set body)"
  by (induction body rule: bodyFunctions.induct) (auto split: if_splits)

lemma terminates_all:
  "(\<forall>td. TreeFunctionDefinition td \<in> fnodes sn \<longrightarrow> terminates td)
   \<and> (\<forall>td. fe = TreeFunctionDefinition td \<longrightarrow> terminates td)
   \<and> terminates d
   \<and> (\<forall>td. TreeFunctionDefinition td \<in> bodyFunctions [be] \<longrightarrow> terminates td)"
proof (rule StreamExpressionNode_FunctionExpressionNode_TreeFunctionDefinitionNode_BodyExpressionNode.induct,
    goal_cases)
  case (6 r aid outs func sargs fargs)
  show ?case
  proof (intro allI impI)
    fix td assume "TreeFunctionDefinition td \<in> fnodes (Application r aid outs func sargs fargs)"
    then consider "func = TreeFunctionDefinition td"
      | "TreeFunctionDefinition td \<in> fnodesAll sargs"
      | "TreeFunctionDefinition td \<in> set fargs"
      by (auto split: if_splits)
    then show "terminates td"
    proof cases
      case 1
      with 6(1) show ?thesis by simp
    next
      case 2
      from fnodesAll_members [OF this] 6(2) show ?thesis by blast
    next
      case 3
      with 6(3) show ?thesis by blast
    qed
  qed
next
  case (10 f sparams fparams body)
  show ?case
  proof (rule terminates_step)
    fix td assume "TreeFunctionDefinition td \<in> bodyFunctions body"
    from bodyFunctions_members [OF this] consider
      n where "StreamExpression n \<in> set body" "TreeFunctionDefinition td \<in> fnodes n"
      | idx n where "YieldExpression idx n \<in> set body" "TreeFunctionDefinition td \<in> fnodes n"
      | "FunctionExpression (TreeFunctionDefinition td) \<in> set body"
      by blast
    then show "terminates td"
    proof cases
      case 1
      with 10 [of "StreamExpression n"] show ?thesis by simp
    next
      case 2
      with 10 [of "YieldExpression idx n"] show ?thesis by simp
    next
      case 3
      with 10 [of "FunctionExpression (TreeFunctionDefinition td)"]
      show ?thesis by simp
    qed
  qed
qed simp_all

lemma compileTreeDefinition_enough_fuel:
  "\<exists>n. \<forall>fuel \<ge> n. compileTreeDefinition fuel d osenv ofenv \<noteq> OutOfFuel"
  using terminates_all [of _ _ d] unfolding terminates_def by blast

subsection \<open>More fuel does not change an outcome\<close>

lemma traverseArgs_more_fuel:
  assumes agree: "\<And>x s. trav x s \<noteq> OutOfFuel \<Longrightarrow> trav' x s = trav x s"
  shows "traverseArgs trav sargs acc st \<noteq> OutOfFuel
           \<Longrightarrow> traverseArgs trav' sargs acc st = traverseArgs trav sargs acc st"
proof (induction sargs arbitrary: acc st)
  case Nil
  then show ?case by simp
next
  case (Cons e sargs)
  from Cons.prems have first: "trav e st \<noteq> OutOfFuel" by (auto simp: rbind_OutOfFuel_iff)
  from agree [OF first] have same: "trav' e st = trav e st" .
  show ?case
  proof (cases "trav e st")
    case (Return st1)
    show ?thesis
    proof (cases "falsy (streamExprReturnedId e)")
      case True
      with Return same show ?thesis by simp
    next
      case False
      with Cons.prems Return have
        "traverseArgs trav sargs (acc @ [the (streamExprReturnedId e)]) st1 \<noteq> OutOfFuel" by simp
      from Cons.IH [OF this] Return same False show ?thesis by simp
    qed
  qed (use same first in simp_all)
qed

lemma traverseCase_more_fuel:
  assumes agree: "\<And>x s. trav x s \<noteq> OutOfFuel \<Longrightarrow> trav' x s = trav x s"
    and run: "traverseCase trav senv fenv lsids node st \<noteq> OutOfFuel"
  shows "traverseCase trav' senv fenv lsids node st = traverseCase trav senv fenv lsids node st"
proof (cases node)
  case (StreamReference r t)
  show ?thesis
  proof (cases "t \<in> lsids \<and> (\<exists>target. env_get senv t = Some (Some target))")
    case True
    then obtain target where t: "t \<in> lsids" "env_get senv t = Some (Some target)" by blast
    with run StreamReference have
      "trav target (st\<lparr>temporaryMarked := insert r (temporaryMarked st)\<rparr>) \<noteq> OutOfFuel"
      by (auto simp: rbind_OutOfFuel_iff)
    from agree [OF this] t StreamReference show ?thesis by simp
  next
    case False
    with StreamReference show ?thesis by (auto split: option.splits)
  qed
next
  case (Application r aid outs func sargs fargs)
  show ?thesis
  proof (cases "env_get fenv (functionExprId func)")
    case None
    with Application show ?thesis by simp
  next
    case (Some fn)
    with run Application have
      "traverseArgs trav sargs [] (st\<lparr>temporaryMarked := insert r (temporaryMarked st)\<rparr>) \<noteq> OutOfFuel"
      by (auto simp: rbind_OutOfFuel_iff)
    from traverseArgs_more_fuel [of trav trav', OF agree this] Some Application
    show ?thesis by simp
  qed
qed simp_all

lemma traverseStreamExpr_Suc:
  "traverseStreamExpr fuel senv fenv lsids node st \<noteq> OutOfFuel \<Longrightarrow>
     traverseStreamExpr (Suc fuel) senv fenv lsids node st = traverseStreamExpr fuel senv fenv lsids node st"
proof (induction fuel arbitrary: node st)
  case 0
  then show ?case by simp
next
  case (Suc fuel)
  show ?case
  proof (cases "oid node \<in> permanentMarked st \<or> oid node \<in> temporaryMarked st")
    case True
    then show ?thesis by auto
  next
    case False
    with Suc.prems have
      "traverseCase (traverseStreamExpr fuel senv fenv lsids) senv fenv lsids node st \<noteq> OutOfFuel"
      by (auto simp: rbind_OutOfFuel_iff)
    from traverseCase_more_fuel [of "traverseStreamExpr fuel senv fenv lsids"
        "traverseStreamExpr (Suc fuel) senv fenv lsids", OF Suc.IH this]
    have "traverseCase (traverseStreamExpr (Suc fuel) senv fenv lsids) senv fenv lsids node st
        = traverseCase (traverseStreamExpr fuel senv fenv lsids) senv fenv lsids node st" .
    with False show ?thesis by simp
  qed
qed

lemma bodyPass_more_fuel:
  assumes agree: "\<And>x s. trav x s \<noteq> OutOfFuel \<Longrightarrow> trav' x s = trav x s"
  shows "bodyPass trav body st \<noteq> OutOfFuel \<Longrightarrow> bodyPass trav' body st = bodyPass trav body st"
proof (induction body arbitrary: st)
  case Nil
  then show ?case by simp
next
  case (Cons b body)
  show ?case
  proof (cases b)
    case (StreamExpression e)
    with Cons.prems have first: "trav e st \<noteq> OutOfFuel" by (auto simp: rbind_OutOfFuel_iff)
    from agree [OF first] have same: "trav' e st = trav e st" .
    show ?thesis
    proof (cases "trav e st")
      case (Return st1)
      with Cons.prems StreamExpression have "bodyPass trav body st1 \<noteq> OutOfFuel" by simp
      from Cons.IH [OF this] Return same StreamExpression show ?thesis by simp
    qed (use same first StreamExpression in simp_all)
  next
    case (FunctionExpression f)
    then show ?thesis by simp
  next
    case (YieldExpression idx e)
    with Cons.prems have first: "trav e st \<noteq> OutOfFuel" by (auto simp: rbind_OutOfFuel_iff)
    from agree [OF first] have same: "trav' e st = trav e st" .
    show ?thesis
    proof (cases "trav e st")
      case (Return st1)
      show ?thesis
      proof (cases "falsy (streamExprReturnedId e)")
        case True
        with Return same YieldExpression show ?thesis by simp
      next
        case False
        with Cons.prems YieldExpression Return have "bodyPass trav body
            (st1\<lparr>yieldIds := setYield (yieldIds st1) idx (the (streamExprReturnedId e))\<rparr>) \<noteq> OutOfFuel"
          by simp
        from Cons.IH [OF this] Return same YieldExpression False show ?thesis by simp
      qed
    qed (use same first YieldExpression in simp_all)
  qed
qed

lemma compileLocalDefs_more_fuel:
  assumes agree: "\<And>td. compile td \<noteq> OutOfFuel \<Longrightarrow> compile' td = compile td"
  shows "compileLocalDefs compile fenv fs acc \<noteq> OutOfFuel
           \<Longrightarrow> compileLocalDefs compile' fenv fs acc = compileLocalDefs compile fenv fs acc"
proof (induction fs arbitrary: acc)
  case Nil
  then show ?case by simp
next
  case (Cons g fs)
  show ?case
  proof (cases "env_get fenv g")
    case None
    then show ?thesis by simp
  next
    case (Some nd)
    show ?thesis
    proof (cases nd)
      case (TreeFunctionDefinition td)
      with Some Cons.prems have first: "compile td \<noteq> OutOfFuel" by (auto simp: rbind_OutOfFuel_iff)
      from agree [OF first] have same: "compile' td = compile td" .
      show ?thesis
      proof (cases "compile td")
        case (Return res)
        obtain cdef inner where res: "res = (cdef, inner)" by (cases res)
        with Cons.prems Some TreeFunctionDefinition Return have
          "compileLocalDefs compile fenv fs (acc @ [LocalFunctionDefinition g cdef]) \<noteq> OutOfFuel"
          by simp
        from Cons.IH [OF this] Return res same Some TreeFunctionDefinition show ?thesis by simp
      qed (use same first Some TreeFunctionDefinition in simp_all)
    next
      case (FunctionReference h)
      with Some Cons.prems have "compileLocalDefs compile fenv fs acc \<noteq> OutOfFuel" by simp
      from Cons.IH [OF this] Some FunctionReference show ?thesis by simp
    next
      case (NativeFunctionDefinition h)
      with Some Cons.prems have "compileLocalDefs compile fenv fs acc \<noteq> OutOfFuel" by simp
      from Cons.IH [OF this] Some NativeFunctionDefinition show ?thesis by simp
    qed
  qed
qed

lemma compileTreeDefinition_Suc:
  "compileTreeDefinition fuel d osenv ofenv \<noteq> OutOfFuel \<Longrightarrow>
     compileTreeDefinition (Suc fuel) d osenv ofenv = compileTreeDefinition fuel d osenv ofenv"
proof (induction fuel arbitrary: d osenv ofenv)
  case 0
  then show ?case by simp
next
  case (Suc fuel)
  show ?case
  proof (cases "collectLocals d osenv ofenv")
    case (Return L)
    let ?senv = "streamEnvironment L" and ?fenv = "functionEnvironment L"
    let ?loc = "\<lambda>k. compileLocalDefs (\<lambda>funcDef. compileTreeDefinition k funcDef ?senv ?fenv)
                  ?fenv (localFunctionIds L) []"
    let ?pass = "\<lambda>k. bodyPass (traverseStreamExpr k ?senv ?fenv (localStreamIds L))
                  (case d of TreeFunctionDefinitionNode f sparams fparams body \<Rightarrow> body) initialState"
    from Suc.prems Return have l: "?loc fuel \<noteq> OutOfFuel" by (auto simp: rbind_OutOfFuel_iff)
    have locs: "?loc (Suc fuel) = ?loc fuel"
      by (rule compileLocalDefs_more_fuel [OF _ l]) (rule Suc.IH)
    show ?thesis
    proof (cases "?loc fuel")
      case (Return lds)
      with Suc.prems \<open>collectLocals d osenv ofenv = Return L\<close> have p: "?pass fuel \<noteq> OutOfFuel"
        by (auto simp: rbind_OutOfFuel_iff)
      have "?pass (Suc fuel) = ?pass fuel"
        by (rule bodyPass_more_fuel [OF _ p]) (rule traverseStreamExpr_Suc)
      with locs Return \<open>collectLocals d osenv ofenv = Return L\<close> show ?thesis by simp
    qed (use locs l \<open>collectLocals d osenv ofenv = Return L\<close> in simp_all)
  qed simp_all
qed

lemma compileTreeDefinition_more_fuel:
  assumes "compileTreeDefinition n d osenv ofenv \<noteq> OutOfFuel" and "n \<le> fuel"
  shows "compileTreeDefinition fuel d osenv ofenv = compileTreeDefinition n d osenv ofenv"
  using assms(2,1)
proof (induction fuel rule: dec_induct)
  case base
  then show ?case by simp
next
  case (step k)
  from step have "compileTreeDefinition k d osenv ofenv = compileTreeDefinition n d osenv ofenv" by simp
  with step.prems compileTreeDefinition_Suc [of k d osenv ofenv] show ?case by simp
qed

text \<open>
  C9.  \<open>compileTreeDefinition\<close> terminates on every definition and in every pair of outer
  environments, also when the streams depend on each other in a cycle: the run has one
  outcome, a returned compiled definition or a thrown error, and every recursion depth from
  some bound on gives that outcome and never runs out of fuel.
\<close>

theorem compileTreeDefinition_terminates:
  "\<exists>n outcome. outcome \<noteq> OutOfFuel
     \<and> (\<forall>fuel \<ge> n. compileTreeDefinition fuel d osenv ofenv = outcome)"
proof -
  from compileTreeDefinition_enough_fuel [of d osenv ofenv] obtain n where
    "compileTreeDefinition n d osenv ofenv \<noteq> OutOfFuel" by blast
  with compileTreeDefinition_more_fuel [of n d osenv ofenv] show ?thesis by blast
qed

theorem compileTreeDefinition_terminates_witness:
  "\<exists>fuel outcome. outcome \<noteq> OutOfFuel
     \<and> compileTreeDefinition fuel cycleDef (Environment None []) (Environment (Some nativeEnv) [])
         = outcome"
  using compileTreeDefinition_terminates [of cycleDef "Environment None []" "Environment (Some nativeEnv) []"]
  by blast

section \<open>Local function definitions\<close>

lemma compileLocalDefs_Return:
  "compileLocalDefs compile fenv fs acc = Return lds \<Longrightarrow>
     \<exists>new. lds = acc @ new
       \<and> map LocalFunctionDefinition.fid new =
           filter (\<lambda>g. \<exists>td. env_get fenv g = Some (TreeFunctionDefinition td)) fs
       \<and> (\<forall>ld \<in> set new. \<exists>td inner.
             env_get fenv (LocalFunctionDefinition.fid ld) = Some (TreeFunctionDefinition td)
           \<and> compile td = Return (LocalFunctionDefinition.def ld, inner))"
proof (induction fs arbitrary: acc)
  case Nil
  then show ?case by simp
next
  case (Cons g fs)
  show ?case
  proof (cases "env_get fenv g")
    case None
    with Cons.prems show ?thesis by simp
  next
    case (Some nd)
    show ?thesis
    proof (cases "\<exists>td. nd = TreeFunctionDefinition td")
      case True
      then obtain td where nd: "nd = TreeFunctionDefinition td" ..
      with Some Cons.prems obtain inner cdef where
        one: "compile td = Return (cdef, inner)" and
        rest: "compileLocalDefs compile fenv fs (acc @ [LocalFunctionDefinition g cdef]) = Return lds"
        by (auto simp: rbind_Return_iff)
      from Cons.IH [OF rest] obtain new where new:
        "lds = (acc @ [LocalFunctionDefinition g cdef]) @ new"
        "map LocalFunctionDefinition.fid new =
           filter (\<lambda>g. \<exists>td. env_get fenv g = Some (TreeFunctionDefinition td)) fs"
        "\<forall>ld \<in> set new. \<exists>td inner.
             env_get fenv (LocalFunctionDefinition.fid ld) = Some (TreeFunctionDefinition td)
           \<and> compile td = Return (LocalFunctionDefinition.def ld, inner)"
        by blast
      let ?new = "LocalFunctionDefinition g cdef # new"
      have "lds = acc @ ?new" using new(1) by simp
      moreover have "map LocalFunctionDefinition.fid ?new =
           filter (\<lambda>g. \<exists>td. env_get fenv g = Some (TreeFunctionDefinition td)) (g # fs)"
        using new(2) Some nd by simp
      moreover have "\<forall>ld \<in> set ?new. \<exists>td inner.
             env_get fenv (LocalFunctionDefinition.fid ld) = Some (TreeFunctionDefinition td)
           \<and> compile td = Return (LocalFunctionDefinition.def ld, inner)"
        using new(3) Some nd one by auto
      ultimately show ?thesis by blast
    next
      case False
      with Some Cons.prems have rest: "compileLocalDefs compile fenv fs acc = Return lds"
        by (cases nd) simp_all
      from Cons.IH [OF rest] obtain new where new:
        "lds = acc @ new"
        "map LocalFunctionDefinition.fid new =
           filter (\<lambda>g. \<exists>td. env_get fenv g = Some (TreeFunctionDefinition td)) fs"
        "\<forall>ld \<in> set new. \<exists>td inner.
             env_get fenv (LocalFunctionDefinition.fid ld) = Some (TreeFunctionDefinition td)
           \<and> compile td = Return (LocalFunctionDefinition.def ld, inner)"
        by blast
      have "map LocalFunctionDefinition.fid new =
           filter (\<lambda>g. \<exists>td. env_get fenv g = Some (TreeFunctionDefinition td)) (g # fs)"
        using new(2) Some False by simp
      with new(1,3) show ?thesis by blast
    qed
  qed
qed

section \<open>Cycle detection\<close>

lemma traverseArgs_append:
  "traverseArgs trav (xs @ ys) acc st =
     rbind (traverseArgs trav xs acc st) (\<lambda>(ids, st1). traverseArgs trav ys ids st1)"
proof (induction xs arbitrary: acc st)
  case Nil
  then show ?case by simp
next
  case (Cons x xs)
  show ?case
  proof (cases "trav x st")
    case (Return st1)
    with Cons.IH show ?thesis by simp
  qed simp_all
qed

lemma bodyPass_append:
  "bodyPass trav (xs @ ys) st = rbind (bodyPass trav xs st) (bodyPass trav ys)"
proof (induction xs arbitrary: st)
  case Nil
  then show ?case by simp
next
  case (Cons x xs)
  show ?case
  proof (cases x)
    case (StreamExpression e)
    with Cons.IH show ?thesis by (cases "trav e st") simp_all
  next
    case (FunctionExpression f)
    then show ?thesis by simp
  next
    case (YieldExpression idx e)
    with Cons.IH show ?thesis by (cases "trav e st") simp_all
  qed
qed

lemma traverseArgs_marks:
  assumes "traverseArgs (traverseStreamExpr fuel senv fenv lsids) sargs acc st = Return (ids, st')"
  shows "temporaryMarked st' = temporaryMarked st
       \<and> permanentMarked st' \<inter> temporaryMarked st \<subseteq> permanentMarked st"
proof -
  from traverseArgs_Return [of "traverseStreamExpr fuel senv fenv lsids" senv fenv lsids, OF _ assms]
  have "resolvesAll senv fenv lsids sargs st st'"
    using traverseStreamExpr_resolves by blast
  from resolvesAll_marks [OF this] show ?thesis by blast
qed

lemma invokes_disjoint:
  "invokes senv fenv lsids fuel node st node' st'
     \<Longrightarrow> temporaryMarked st \<inter> permanentMarked st = {}
     \<Longrightarrow> temporaryMarked st' \<inter> permanentMarked st' = {}"
proof (induction rule: invokes.induct)
  case (Here fuel node st)
  then show ?case by simp
next
  case (Target r st t target fuel node' st')
  then show ?case by auto
next
  case (Argument r st func sargs before sarg after fuel ids st1 node' st' aid outs fargs)
  from traverseArgs_marks [OF Argument.hyps(5)] Argument.hyps(1) Argument.prems
  have "temporaryMarked st1 \<inter> permanentMarked st1 = {}" by auto
  then show ?case by (rule Argument.IH)
qed

lemma traverse_temporary_marked_throws:
  assumes "oid node \<in> temporaryMarked st" and "oid node \<notin> permanentMarked st"
  shows "traverseStreamExpr (Suc fuel) senv fenv lsids node st = Throw (CompilationError ''graph cycle'')"
  using assms by simp

lemma invokes_cycle:
  "invokes senv fenv lsids fuel node st node' st'
     \<Longrightarrow> oid node' \<in> temporaryMarked st' \<Longrightarrow> oid node' \<notin> permanentMarked st'
     \<Longrightarrow> traverseStreamExpr fuel senv fenv lsids node st = Throw (CompilationError ''graph cycle'')"
proof (induction rule: invokes.induct)
  case (Here fuel node st)
  then show ?case by (rule traverse_temporary_marked_throws)
next
  case (Target r st t target fuel node' st')
  from Target.IH [OF Target.prems] Target.hyps(1-4) show ?case by simp
next
  case (Argument r st func sargs before sarg after fuel ids st1 node' st' aid outs fargs)
  from Argument.IH [OF Argument.prems]
  have inner: "traverseStreamExpr fuel senv fenv lsids sarg st1 = Throw (CompilationError ''graph cycle'')" .
  have "traverseArgs (traverseStreamExpr fuel senv fenv lsids) sargs []
          (st\<lparr>temporaryMarked := insert r (temporaryMarked st)\<rparr>) = Throw (CompilationError ''graph cycle'')"
    unfolding Argument.hyps(4) traverseArgs_append Argument.hyps(5) using inner by simp
  with Argument.hyps(1-3) show ?case by (auto split: option.splits)
qed

lemma traverse_cycle_propagates:
  assumes "invokes senv fenv lsids fuel node st node' st'"
    and "temporaryMarked st \<inter> permanentMarked st = {}"
    and "oid node' \<in> temporaryMarked st'"
  shows "traverseStreamExpr fuel senv fenv lsids node st = Throw (CompilationError ''graph cycle'')"
proof -
  from invokes_disjoint [OF assms(1,2)] assms(3) have "oid node' \<notin> permanentMarked st'" by blast
  from invokes_cycle [OF assms(1,3) this] show ?thesis .
qed

lemma bodyPass_disjoint:
  assumes "bodyPass (traverseStreamExpr fuel senv fenv lsids) body st = Return st'"
    and "temporaryMarked st \<inter> permanentMarked st = {}"
  shows "temporaryMarked st' \<inter> permanentMarked st' = {}"
proof (rule bodyPass_preserves [where P = "\<lambda>s. temporaryMarked s \<inter> permanentMarked s = {}"
      and U = UNIV, OF _ _ _ assms(1) assms(2)])
  show "resolves senv fenv lsids n s s'"
    if "traverseStreamExpr fuel senv fenv lsids n s = Return s'" for n s s'
    using that by (rule traverseStreamExpr_resolves)
  show "temporaryMarked s' \<inter> permanentMarked s' = {}"
    if "temporaryMarked s \<inter> permanentMarked s = {}" and "resolves senv fenv lsids n s s'"
    for n s s' using resolves_marks [OF that(2)] that(1) by auto
qed simp_all

text \<open>
  C2.  When, during the body pass of a compilation, \<open>traverseStreamExpr\<close> is invoked on a
  node that is temporary-marked, the whole call of \<open>compileTreeDefinition\<close> throws the
  \<open>CompilationError\<close> with the message \<open>graph cycle\<close>; a thrown outcome carries no compiled
  definition.  The hypotheses say where the invocation happens: the collector and the
  compilation of the local definitions have returned, the body entries before the entry at
  hand have been traversed, and the traversal of that entry's expression invokes the node.
\<close>

theorem cycle_aborts_compilation:
  assumes "collectLocals d osenv ofenv = Return L"
    and "compileLocalDefs
           (\<lambda>funcDef. compileTreeDefinition fuel funcDef (streamEnvironment L) (functionEnvironment L))
           (functionEnvironment L) (localFunctionIds L) [] = Return lds"
    and "bodyExprs d = before @ entry # after"
    and "bodyPass (traverseStreamExpr fuel (streamEnvironment L) (functionEnvironment L) (localStreamIds L))
           before initialState = Return st"
    and "entryExpr entry = Some expr"
    and "invokes (streamEnvironment L) (functionEnvironment L) (localStreamIds L) fuel expr st node st'"
    and "oid node \<in> temporaryMarked st'"
  shows "compileTreeDefinition (Suc fuel) d osenv ofenv = Throw (CompilationError ''graph cycle'')"
proof -
  let ?trav = "traverseStreamExpr fuel (streamEnvironment L) (functionEnvironment L) (localStreamIds L)"
  have "temporaryMarked st \<inter> permanentMarked st = {}"
    by (rule bodyPass_disjoint [OF assms(4)]) (simp add: initialState_def)
  from traverse_cycle_propagates [OF assms(6) this assms(7)]
  have inner: "?trav expr st = Throw (CompilationError ''graph cycle'')" .
  have "bodyPass ?trav (entry # after) st = Throw (CompilationError ''graph cycle'')"
    using assms(5) inner by (cases entry) simp_all
  then have "bodyPass ?trav (bodyExprs d) initialState = Throw (CompilationError ''graph cycle'')"
    unfolding assms(3) bodyPass_append assms(4) by simp
  moreover have "bodyExprs d = (case d of TreeFunctionDefinitionNode f sparams fparams body \<Rightarrow> body)"
    by (cases d) simp
  ultimately show ?thesis using assms(1,2) by simp
qed

theorem cycle_aborts_compilation_witness:
  "collectLocals cycleDef (Environment None []) (Environment (Some nativeEnv) []) = Return cycleLocals
   \<and> invokes (streamEnvironment cycleLocals) (functionEnvironment cycleLocals) (localStreamIds cycleLocals)
       5 cycleA initialState cycleA (initialState\<lparr>temporaryMarked := {4, 3, 2, 1}\<rparr>)
   \<and> compileTreeDefinition (Suc 5) cycleDef (Environment None []) (Environment (Some nativeEnv) [])
       = Throw (CompilationError ''graph cycle'')"
proof -
  let ?senv = "streamEnvironment cycleLocals" and ?fenv = "functionEnvironment cycleLocals"
  let ?ids = "localStreamIds cycleLocals"
  have coll: "collectLocals cycleDef (Environment None []) (Environment (Some nativeEnv) []) = Return cycleLocals"
    by (simp add: cycleDef_def cycleA_def cycleB_def cycleLocals_def collectLocals_def
        registerStream_def insert_commute)
  have locs: "compileLocalDefs
           (\<lambda>funcDef. compileTreeDefinition 5 funcDef ?senv ?fenv) ?fenv (localFunctionIds cycleLocals) []
         = Return []"
    by (simp add: cycleLocals_def)
  have body: "bodyExprs cycleDef = [] @ StreamExpression cycleA # [StreamExpression cycleB]"
    by (simp add: cycleDef_def)
  have pass: "bodyPass (traverseStreamExpr 5 ?senv ?fenv ?ids) [] initialState = Return initialState"
    by simp
  have entry: "entryExpr (StreamExpression cycleA) = Some cycleA" by simp
  have i5: "invokes ?senv ?fenv ?ids (Suc 0) cycleA (initialState\<lparr>temporaryMarked := {4, 3, 2, 1}\<rparr>)
              cycleA (initialState\<lparr>temporaryMarked := {4, 3, 2, 1}\<rparr>)"
    by (rule invokes.Here)
  have i4: "invokes ?senv ?fenv ?ids (Suc (Suc 0)) (StreamReference 4 ''a'')
              (initialState\<lparr>temporaryMarked := {3, 2, 1}\<rparr>)
              cycleA (initialState\<lparr>temporaryMarked := {4, 3, 2, 1}\<rparr>)"
    by (rule invokes.Target [where target = cycleA])
      (use i5 in \<open>simp_all add: initialState_def cycleLocals_def\<close>)
  have i3: "invokes ?senv ?fenv ?ids (Suc (Suc (Suc 0))) cycleB
              (initialState\<lparr>temporaryMarked := {2, 1}\<rparr>)
              cycleA (initialState\<lparr>temporaryMarked := {4, 3, 2, 1}\<rparr>)"
    unfolding cycleB_def
    by (rule invokes.Argument [where before = "[]" and after = "[]" and ids = "[]"
          and ?st1.0 = "initialState\<lparr>temporaryMarked := {3, 2, 1}\<rparr>"])
      (use i4 in \<open>simp_all add: initialState_def cycleLocals_def nativeEnv_def\<close>)
  have i2: "invokes ?senv ?fenv ?ids (Suc (Suc (Suc (Suc 0)))) (StreamReference 2 ''b'')
              (initialState\<lparr>temporaryMarked := {1}\<rparr>)
              cycleA (initialState\<lparr>temporaryMarked := {4, 3, 2, 1}\<rparr>)"
    by (rule invokes.Target [where target = cycleB])
      (use i3 in \<open>simp_all add: initialState_def cycleLocals_def\<close>)
  have i1: "invokes ?senv ?fenv ?ids (Suc (Suc (Suc (Suc (Suc 0))))) cycleA initialState
              cycleA (initialState\<lparr>temporaryMarked := {4, 3, 2, 1}\<rparr>)"
    unfolding cycleA_def
    by (rule invokes.Argument [where before = "[]" and after = "[]" and ids = "[]"
          and ?st1.0 = "initialState\<lparr>temporaryMarked := {1}\<rparr>"])
      (use i2 [unfolded cycleA_def] in \<open>simp_all add: initialState_def cycleLocals_def nativeEnv_def\<close>)
  have five: "Suc (Suc (Suc (Suc (Suc 0)))) = 5" by simp
  from i1 have inv: "invokes ?senv ?fenv ?ids 5 cycleA initialState
              cycleA (initialState\<lparr>temporaryMarked := {4, 3, 2, 1}\<rparr>)"
    unfolding five .
  have marked: "oid cycleA \<in> temporaryMarked (initialState\<lparr>temporaryMarked := {4, 3, 2, 1}\<rparr>)"
    by (simp add: cycleA_def)
  from cycle_aborts_compilation [OF coll locs body pass entry inv marked] coll inv
  show ?thesis by (intro conjI)
qed

section \<open>External references are bound in an enclosing frame\<close>

lemma env_has_frames:
  "env_has e k \<longleftrightarrow>
     map_of (local_frame e) k \<noteq> None \<or> (\<exists>out. outer_env e = Some out \<and> env_has out k)"
  by (induction e k rule: env_has.induct) simp_all

lemma visible_not_local_is_outer:
  assumes "collected L V F" and "t \<notin> localStreamIds L"
  shows "env_has (streamEnvironment L) t \<longleftrightarrow>
           (\<exists>out. outer_env (streamEnvironment L) = Some out \<and> env_has out t)"
proof -
  from assms collected_dom [OF assms(1)] have "smap L t = None" by blast
  then have "map_of (local_frame (streamEnvironment L)) t = None" by (simp add: smap_def)
  with env_has_frames [of "streamEnvironment L" t] show ?thesis by simp
qed

section \<open>The loop over the local function definitions\<close>

lemma compileTreeDefinition_after_locals:
  assumes coll: "collectLocals d osenv ofenv = Return L"
    and loop: "compileLocalDefs
           (\<lambda>funcDef. compileTreeDefinition fuel funcDef (streamEnvironment L) (functionEnvironment L))
           (functionEnvironment L) (localFunctionIds L) [] = Return lds"
  shows "compileTreeDefinition (Suc fuel) d osenv ofenv =
           rbind (bodyPass (traverseStreamExpr fuel (streamEnvironment L) (functionEnvironment L)
                              (localStreamIds L)) (bodyExprs d) initialState)
             (\<lambda>st. Return (CompiledDefinition (streamParams d) (functionParams d)
                              (constStreams st) (apps st) lds (yieldIds st),
                            externalReferencedStreamIds st))"
  using assms by (cases d) simp

lemma bodyPass_function_entry:
  "FunctionExpression f \<in> set body \<Longrightarrow> bodyPass trav body st \<noteq> Return st'"
proof (induction body arbitrary: st)
  case Nil
  then show ?case by simp
next
  case (Cons b body)
  show ?case
  proof (cases b)
    case (StreamExpression e)
    with Cons show ?thesis by (cases "trav e st") auto
  next
    case (FunctionExpression g)
    then show ?thesis by simp
  next
    case (YieldExpression idx e)
    with Cons show ?thesis by (cases "trav e st") auto
  qed
qed

lemma function_entry_never_compiles:
  assumes "FunctionExpression f \<in> set (bodyExprs d)"
  shows "compileTreeDefinition fuel d osenv ofenv \<noteq> Return res"
proof (cases fuel)
  case 0
  then show ?thesis by simp
next
  case (Suc n)
  obtain g sparams fparams body where d: "d = TreeFunctionDefinitionNode g sparams fparams body"
    by (cases d)
  with assms have "FunctionExpression f \<in> set body" by simp
  from bodyPass_function_entry [OF this] Suc d show ?thesis
    by (auto simp: rbind_Return_iff)
qed

text \<open>
  C8.  Once the collector has returned, the loop over the local function ids compiles every
  tree function definition met in the scope -- applied, passed as an argument, or standing
  alone as a body entry and used nowhere: when the loop returns, each of them has an entry
  in the nested-definitions list under its function id, holding the result of running
  \<open>compileTreeDefinition\<close> on it against the scope's environments; the list has one entry
  per id, only entries of tree function definitions of the scope, and none for a native
  function definition.  The loop does not touch the application list: the enclosing
  compilation is the body pass from the empty state, whose application list is stored
  beside the nested definitions.
\<close>

theorem local_functions_compiled:
  assumes coll: "collectLocals d osenv ofenv = Return L"
    and loop: "compileLocalDefs
           (\<lambda>funcDef. compileTreeDefinition fuel funcDef (streamEnvironment L) (functionEnvironment L))
           (functionEnvironment L) (localFunctionIds L) [] = Return lds"
  shows "(\<forall>td. TreeFunctionDefinition td \<in> scopeFunctions d \<longrightarrow>
           (\<exists>ld \<in> set lds. \<exists>inner.
               LocalFunctionDefinition.fid ld = functionExprId (TreeFunctionDefinition td)
             \<and> compileTreeDefinition fuel td (streamEnvironment L) (functionEnvironment L)
                 = Return (LocalFunctionDefinition.def ld, inner)))
     \<and> (\<forall>ld \<in> set lds. \<exists>td.
             TreeFunctionDefinition td \<in> scopeFunctions d
           \<and> LocalFunctionDefinition.fid ld = functionExprId (TreeFunctionDefinition td))
     \<and> (\<forall>g. NativeFunctionDefinition g \<in> scopeFunctions d \<longrightarrow>
             g \<notin> LocalFunctionDefinition.fid ` set lds)
     \<and> distinct (map LocalFunctionDefinition.fid lds)
     \<and> compileTreeDefinition (Suc fuel) d osenv ofenv =
           rbind (bodyPass (traverseStreamExpr fuel (streamEnvironment L) (functionEnvironment L)
                              (localStreamIds L)) (bodyExprs d) initialState)
             (\<lambda>st. Return (CompiledDefinition (streamParams d) (functionParams d)
                              (constStreams st) (apps st) lds (yieldIds st),
                            externalReferencedStreamIds st))"
proof -
  obtain f sparams fparams body where d: "d = TreeFunctionDefinitionNode f sparams fparams body"
    by (cases d)
  let ?senv = "streamEnvironment L" and ?fenv = "functionEnvironment L"
  let ?tree = "\<lambda>g. \<exists>td. env_get ?fenv g = Some (TreeFunctionDefinition td)"
  from collectLocals_collected [OF coll [unfolded d]]
  have inv: "collected L (bodyNodes body) (bodyFunctions body)" by simp
  from compileLocalDefs_Return [OF loop] have
    ids: "map LocalFunctionDefinition.fid lds = filter ?tree (localFunctionIds L)"
    and each: "\<forall>ld \<in> set lds. \<exists>td inner.
             env_get ?fenv (LocalFunctionDefinition.fid ld) = Some (TreeFunctionDefinition td)
           \<and> compileTreeDefinition fuel td ?senv ?fenv
                = Return (LocalFunctionDefinition.def ld, inner)"
    by auto
  have get: "env_get ?fenv g = fmap L g" if "g \<in> set (localFunctionIds L)" for g
  proof -
    from that collected_fdom [OF inv] obtain nd where "fmap L g = Some nd" by blast
    then show ?thesis by (simp add: fmap_def env_get_local)
  qed
  have all: "\<exists>ld \<in> set lds. \<exists>inner.
               LocalFunctionDefinition.fid ld = functionExprId (TreeFunctionDefinition td)
             \<and> compileTreeDefinition fuel td ?senv ?fenv
                 = Return (LocalFunctionDefinition.def ld, inner)"
    if "TreeFunctionDefinition td \<in> bodyFunctions body" for td
  proof -
    let ?g = "functionExprId (TreeFunctionDefinition td)"
    from collected_fdefines [OF inv that] have bound: "fmap L ?g = Some (TreeFunctionDefinition td)" .
    with collected_fdom [OF inv] have mem: "?g \<in> set (localFunctionIds L)" by blast
    with get bound have here: "env_get ?fenv ?g = Some (TreeFunctionDefinition td)" by simp
    with mem have "?g \<in> set (filter ?tree (localFunctionIds L))" by auto
    with ids have "?g \<in> LocalFunctionDefinition.fid ` set lds" by (metis set_map)
    then obtain ld where ld: "ld \<in> set lds" "LocalFunctionDefinition.fid ld = ?g" by auto
    with each obtain td' inner where
      "env_get ?fenv ?g = Some (TreeFunctionDefinition td')"
      "compileTreeDefinition fuel td' ?senv ?fenv
         = Return (LocalFunctionDefinition.def ld, inner)"
      by metis
    with here have "compileTreeDefinition fuel td ?senv ?fenv
         = Return (LocalFunctionDefinition.def ld, inner)" by simp
    with ld show ?thesis by blast
  qed
  have bound: "\<exists>td. fmap L (LocalFunctionDefinition.fid ld) = Some (TreeFunctionDefinition td)"
    if "ld \<in> set lds" for ld
  proof -
    from that have "LocalFunctionDefinition.fid ld \<in> set (map LocalFunctionDefinition.fid lds)" by simp
    with ids have mem: "LocalFunctionDefinition.fid ld \<in> set (localFunctionIds L)" by simp
    from each that obtain td where
      "env_get ?fenv (LocalFunctionDefinition.fid ld) = Some (TreeFunctionDefinition td)" by blast
    with get [OF mem] have "fmap L (LocalFunctionDefinition.fid ld) = Some (TreeFunctionDefinition td)"
      by simp
    then show ?thesis ..
  qed
  have only: "\<exists>td. TreeFunctionDefinition td \<in> bodyFunctions body
           \<and> LocalFunctionDefinition.fid ld = functionExprId (TreeFunctionDefinition td)"
    if "ld \<in> set lds" for ld
  proof -
    from bound [OF that] obtain td where
      "fmap L (LocalFunctionDefinition.fid ld) = Some (TreeFunctionDefinition td)" ..
    from collected_fbound [OF inv this] show ?thesis by auto
  qed
  have native: "g \<notin> LocalFunctionDefinition.fid ` set lds"
    if "NativeFunctionDefinition g \<in> bodyFunctions body" for g
  proof
    assume "g \<in> LocalFunctionDefinition.fid ` set lds"
    then obtain ld where ld: "ld \<in> set lds" "LocalFunctionDefinition.fid ld = g" by auto
    from bound [OF ld(1)] ld(2) obtain td where "fmap L g = Some (TreeFunctionDefinition td)" by auto
    moreover from collected_fdefines [OF inv that] have "fmap L g = Some (NativeFunctionDefinition g)"
      by simp
    ultimately show False by simp
  qed
  have dist: "distinct (map LocalFunctionDefinition.fid lds)"
    unfolding ids using collected_distinct [OF inv] by simp
  note whole = compileTreeDefinition_after_locals [OF coll loop]
  from all only native dist whole show ?thesis
    unfolding d by simp
qed

theorem local_functions_compiled_witness:
  "collectLocals standaloneDef (Environment None []) (Environment (Some nativeEnv) [])
     = Return standaloneLocals
   \<and> compileLocalDefs
       (\<lambda>funcDef. compileTreeDefinition 5 funcDef (streamEnvironment standaloneLocals)
          (functionEnvironment standaloneLocals))
       (functionEnvironment standaloneLocals) (localFunctionIds standaloneLocals) []
     = Return [LocalFunctionDefinition ''f'' (CompiledDefinition [''p''] [] []
                 [AppSpec [''z''] ''app2'' ''add'' [''p'', ''x''] []] [] [Some ''z''])]
   \<and> TreeFunctionDefinition closureInner \<in> scopeFunctions standaloneDef
   \<and> NativeFunctionDefinition ''now'' \<in> scopeFunctions standaloneDef
   \<and> (\<exists>inner. compileTreeDefinition 5 closureInner (streamEnvironment standaloneLocals)
          (functionEnvironment standaloneLocals)
        = Return (CompiledDefinition [''p''] [] []
                    [AppSpec [''z''] ''app2'' ''add'' [''p'', ''x''] []] [] [Some ''z''], inner))
   \<and> ''now'' \<notin> LocalFunctionDefinition.fid `
         set [LocalFunctionDefinition ''f'' (CompiledDefinition [''p''] [] []
                 [AppSpec [''z''] ''app2'' ''add'' [''p'', ''x''] []] [] [Some ''z''])]
   \<and> compileTreeDefinition (Suc 5) standaloneDef (Environment None []) (Environment (Some nativeEnv) [])
       = Throw (Error [])"
proof -
  let ?inner = "CompiledDefinition [''p''] [] []
                 [AppSpec [''z''] ''app2'' ''add'' [''p'', ''x''] []] [] [Some ''z'']"
  let ?lds = "[LocalFunctionDefinition ''f'' ?inner]"
  have coll: "collectLocals standaloneDef (Environment None []) (Environment (Some nativeEnv) [])
     = Return standaloneLocals"
    by (simp add: standaloneDef_def standaloneLocals_def collectLocals_def registerStream_def
        registerFunction_def closureInner_def nativeEnv_def)
  have loop: "compileLocalDefs
       (\<lambda>funcDef. compileTreeDefinition 5 funcDef (streamEnvironment standaloneLocals)
          (functionEnvironment standaloneLocals))
       (functionEnvironment standaloneLocals) (localFunctionIds standaloneLocals) [] = Return ?lds"
    by code_simp
  have tree: "TreeFunctionDefinition closureInner \<in> scopeFunctions standaloneDef"
    and nat: "NativeFunctionDefinition ''now'' \<in> scopeFunctions standaloneDef"
    by (simp_all add: standaloneDef_def)
  have thrown: "compileTreeDefinition (Suc 5) standaloneDef (Environment None [])
      (Environment (Some nativeEnv) []) = Throw (Error [])"
    by code_simp
  from local_functions_compiled [OF coll loop] have
    all: "\<forall>td. TreeFunctionDefinition td \<in> scopeFunctions standaloneDef \<longrightarrow>
           (\<exists>ld \<in> set ?lds. \<exists>inner.
               LocalFunctionDefinition.fid ld = functionExprId (TreeFunctionDefinition td)
             \<and> compileTreeDefinition 5 td (streamEnvironment standaloneLocals)
                  (functionEnvironment standaloneLocals)
                 = Return (LocalFunctionDefinition.def ld, inner))"
    and skipped: "\<forall>g. NativeFunctionDefinition g \<in> scopeFunctions standaloneDef \<longrightarrow>
             g \<notin> LocalFunctionDefinition.fid ` set ?lds"
    by blast+
  from all tree obtain inner where
    one: "compileTreeDefinition 5 closureInner (streamEnvironment standaloneLocals)
            (functionEnvironment standaloneLocals) = Return (?inner, inner)"
    by auto
  from skipped nat have none: "''now'' \<notin> LocalFunctionDefinition.fid ` set ?lds" by blast
  from one have ex: "\<exists>inner. compileTreeDefinition 5 closureInner (streamEnvironment standaloneLocals)
          (functionEnvironment standaloneLocals) = Return (?inner, inner)" ..
  from coll loop tree nat ex none thrown show ?thesis by (intro conjI)
qed


end
